theory Spec2Isabelle
  imports Complex_Main "HOL-Library.Sublist"
begin

section \<open>Python values used by spinner.py\<close>

text \<open>
  Exceptions are values of \<open>error\<close>; a function that can raise returns \<open>error + 'a\<close> with
  \<open>Inl\<close> for the exception.

  A Python \<open>str\<close> is a sequence of code points. Frame normalisation tells characters
  apart that lie beyond 255 (\<open>str.splitlines\<close> ends a line at U+2028 and U+2029), so the
  text it works on is a list of code points, each a natural number. \<open>parse_choice\<close>,
  \<open>PhraseGenerator\<close> and \<open>animate\<close> work on \<^typ>\<open>string\<close>, where a \<^typ>\<open>char\<close> stands for
  a code point below 256.
\<close>

datatype error = ValueError | ZeroDivisionError | IndexError

type_synonym utext = "nat list"

text \<open>The code points of a literal.\<close>

definition code_points :: "string \<Rightarrow> utext" where
  "code_points s = map of_char s"

definition NL :: nat where "NL = 0x0A"
definition CR :: nat where "CR = 0x0D"
definition TAB :: nat where "TAB = 0x09"
definition SPACE :: nat where "SPACE = 0x20"

text \<open>
  The code points at which \<open>str.splitlines\<close> ends a line: line feed, vertical tab, form
  feed, carriage return, file, group and record separator, next line (0x85), line
  separator (U+2028) and paragraph separator (U+2029).
\<close>

definition is_line_boundary :: "nat \<Rightarrow> bool" where
  "is_line_boundary c \<longleftrightarrow>
     c \<in> {0x0A, 0x0B, 0x0C, 0x0D, 0x1C, 0x1D, 0x1E, 0x85, 0x2028, 0x2029}"

text \<open>The class \<open>[ \t]\<close> of the regular expressions in \<open>textwrap\<close>.\<close>

definition is_blank_char :: "nat \<Rightarrow> bool" where
  "is_blank_char c \<longleftrightarrow> c = SPACE \<or> c = TAB"

text \<open>\<open>s.split("\n")\<close>: the pieces between newlines; never empty.\<close>

fun split_nl :: "utext \<Rightarrow> utext list" where
  "split_nl [] = [ [] ]"
| "split_nl (c # cs) =
     (if c = NL then [] # split_nl cs
      else (case split_nl cs of [] \<Rightarrow> [ [c] ] | l # ls \<Rightarrow> (c # l) # ls))"

text \<open>\<open>"\n".join(lines)\<close>.\<close>

fun join_nl :: "utext list \<Rightarrow> utext" where
  "join_nl [] = []"
| "join_nl [l] = l"
| "join_nl (l # m # ls) = l @ NL # join_nl (m # ls)"

text \<open>\<open>s.strip("\n")\<close>: newlines removed at both ends.\<close>

definition strip_nl :: "utext \<Rightarrow> utext" where
  "strip_nl s = rev (dropWhile (\<lambda>c. c = NL) (rev (dropWhile (\<lambda>c. c = NL) s)))"

text \<open>
  \<open>s.splitlines()\<close>: lines end at any line boundary, \<open>"\r\n"\<close> counts as one, the
  boundaries are dropped, and a boundary at the very end opens no further line.
\<close>

fun splitlines :: "utext \<Rightarrow> utext list" where
  "splitlines [] = []"
| "splitlines (c # cs) =
     (if c = CR \<and> cs \<noteq> [] \<and> hd cs = NL then [] # splitlines (tl cs)
      else if is_line_boundary c then [] # splitlines cs
      else (case splitlines cs of [] \<Rightarrow> [ [c] ] | l # ls \<Rightarrow> (c # l) # ls))"

text \<open>\<open>s.ljust(width)\<close>: spaces appended up to \<open>width\<close>; a longer utext is unchanged.\<close>

definition ljust :: "nat \<Rightarrow> utext \<Rightarrow> utext" where
  "ljust width s = s @ replicate (width - length s) SPACE"

text \<open>\<open>max(...)\<close> of a sequence: \<open>ValueError\<close> on the empty one.\<close>

fun py_max :: "nat list \<Rightarrow> error + nat" where
  "py_max [] = Inl ValueError"
| "py_max (x # xs) = Inr (fold max xs x)"

section \<open>textwrap.dedent\<close>

text \<open>
  \<open>textwrap.dedent\<close> of the standard library, as its regular expressions
  \<open>^[ \t]+$\<close> and \<open>(^[ \t]*)(?:[^ \t\n])\<close> work (both in multi-line mode, where a line
  ends at \<open>"\n"\<close> only):
  \<^enum> every line (between \<open>"\n"\<close>) made of spaces and tabs only becomes empty;
  \<^enum> the indent of each remaining non-empty line is its leading run of spaces and tabs;
  \<^enum> the margin is folded over the indents: the first indent, then kept when the next
    indent extends it, replaced by the next indent when that is a prefix of it, and cut
    at the first mismatch otherwise;
  \<^enum> a non-empty margin is removed at the start of each line that starts with it.
\<close>

definition blank_line :: "utext \<Rightarrow> utext" where
  "blank_line l = (if l \<noteq> [] \<and> list_all is_blank_char l then [] else l)"

text \<open>A line that \<open>blank_line\<close> keeps: it has a character other than space and tab.\<close>

definition has_ink :: "utext \<Rightarrow> bool" where
  "has_ink l \<longleftrightarrow> \<not> list_all is_blank_char l"

definition indent_of :: "utext \<Rightarrow> utext" where
  "indent_of l = takeWhile is_blank_char l"

fun first_mismatch :: "utext \<Rightarrow> utext \<Rightarrow> nat option" where
  "first_mismatch (x # xs) (y # ys) =
     (if x \<noteq> y then Some 0 else map_option Suc (first_mismatch xs ys))"
| "first_mismatch _ _ = None"

fun margin_step :: "utext option \<Rightarrow> utext \<Rightarrow> utext option" where
  "margin_step None indent = Some indent"
| "margin_step (Some margin) indent =
     (if prefix margin indent then Some margin
      else if prefix indent margin then Some indent
      else (case first_mismatch margin indent of
              Some i \<Rightarrow> Some (take i margin)
            | None \<Rightarrow> Some margin))"

definition find_margin :: "utext list \<Rightarrow> utext option" where
  "find_margin ls = fold (\<lambda>indent m. margin_step m indent)
                      (map indent_of (filter (\<lambda>l. l \<noteq> []) ls)) None"

definition remove_margin :: "utext \<Rightarrow> utext \<Rightarrow> utext" where
  "remove_margin margin l = (if prefix margin l then drop (length margin) l else l)"

text \<open>The four steps, on the lines of the text (its pieces between newlines).\<close>

definition dedent_block :: "utext list \<Rightarrow> utext list" where
  "dedent_block ls0 =
     (let ls = map blank_line ls0 in
      case find_margin ls of
        None \<Rightarrow> ls
      | Some margin \<Rightarrow> if margin \<noteq> [] then map (remove_margin margin) ls else ls)"

definition dedent :: "utext \<Rightarrow> utext" where
  "dedent text = join_nl (dedent_block (split_nl text))"

section \<open>Frame normalisation\<close>

definition dedent_lines :: "utext \<Rightarrow> utext list" where
  "dedent_lines block = splitlines (strip_nl (dedent block))"

text \<open>A list of lines without the empty lines at its two ends: what \<open>strip("\n")\<close>
  followed by \<open>splitlines()\<close> leaves of lines joined by newlines, as the lemmas below show.\<close>

definition trim_empty :: "utext list \<Rightarrow> utext list" where
  "trim_empty ls = rev (dropWhile (\<lambda>l. l = []) (rev (dropWhile (\<lambda>l. l = []) ls)))"

definition pad_frame :: "nat \<Rightarrow> nat \<Rightarrow> utext list \<Rightarrow> utext list" where
  "pad_frame width height frame =
     (let padded_lines = map (ljust width) frame in
      if length padded_lines < height
      then padded_lines @ replicate (height - length padded_lines) (replicate width SPACE)
      else padded_lines)"

definition normalize_frames :: "utext list \<Rightarrow> error + utext list" where
  "normalize_frames raw_frames =
     (let split_frames = map dedent_lines raw_frames in
      case py_max (map length (concat split_frames)) of
        Inl e \<Rightarrow> Inl e
      | Inr width \<Rightarrow>
          (case py_max (map length split_frames) of
             Inl e \<Rightarrow> Inl e
           | Inr height \<Rightarrow>
               Inr (map (\<lambda>frame. join_nl (pad_frame width height frame)) split_frames)))"

section \<open>Spinner\<close>

text \<open>
  The delay is a Python float that is only handed to the sleep function, never computed
  with; the model carries it as a rational number. \<open>Spinner\<close> and \<open>animate\<close> store and
  copy frames and look at none of their characters; a frame is a \<^typ>\<open>string\<close> there.
\<close>

record spinner =
  frames :: "string list"
  delay :: rat

text \<open>\<open>Spinner.__init__\<close>: an empty frame sequence is refused.\<close>

definition Spinner :: "string list \<Rightarrow> rat \<Rightarrow> error + spinner" where
  "Spinner fs d = (if fs = [] then Inl ValueError else Inr \<lparr>frames = fs, delay = d\<rparr>)"

text \<open>
  \<open>Spinner.cycle\<close> is \<open>itertools.cycle(self.frames)\<close>: the element at position \<open>index\<close>
  of the endless repetition, and nothing at all when there are no frames.
\<close>

definition cycle :: "spinner \<Rightarrow> nat \<Rightarrow> string option" where
  "cycle sp index =
     (if frames sp = [] then None else Some (frames sp ! (index mod length (frames sp))))"

section \<open>parse_choice\<close>

text \<open>\<open>str.isspace\<close> on one character (those below 256).\<close>

definition py_isspace :: "char \<Rightarrow> bool" where
  "py_isspace c \<longleftrightarrow>
     c \<in> {CHR 0x09, CHR 0x0A, CHR 0x0B, CHR 0x0C, CHR 0x0D, CHR 0x1C, CHR 0x1D, CHR 0x1E,
          CHR 0x1F, CHR 0x20, CHR 0x85, CHR 0xA0}"

text \<open>\<open>str.strip()\<close> removes whitespace at both ends; \<open>str.lower()\<close> maps each capital
  letter below 256 to its small letter.\<close>

definition py_strip :: "string \<Rightarrow> string" where
  "py_strip s = rev (dropWhile py_isspace (rev (dropWhile py_isspace s)))"

definition lower_char :: "char \<Rightarrow> char" where
  "lower_char c =
     (let n = (of_char c :: nat) in
      if (65 \<le> n \<and> n \<le> 90) \<or> (192 \<le> n \<and> n \<le> 222 \<and> n \<noteq> 215)
      then char_of (n + 32) else c)"

definition py_lower :: "string \<Rightarrow> string" where
  "py_lower s = map lower_char s"

definition parse_choice :: "string \<Rightarrow> error + string" where
  "parse_choice v =
     (let lowered = py_lower (py_strip v) in
      if lowered \<in> {''chip'', ''c''} then Inr ''chip''
      else if lowered \<in> {''cockroach'', ''roach'', ''r''} then Inr ''cockroach''
      else Inl ValueError)"

section \<open>PhraseGenerator\<close>

text \<open>\<open>str(n)\<close> for an integer: decimal digits, with a minus sign when negative.\<close>

definition digit_char :: "nat \<Rightarrow> char" where
  "digit_char d = char_of (48 + d)"

fun str_nat :: "nat \<Rightarrow> string" where
  "str_nat n = (if n < 10 then [digit_char n] else str_nat (n div 10) @ [digit_char (n mod 10)])"

declare str_nat.simps [simp del]

definition str_int :: "int \<Rightarrow> string" where
  "str_int i = (if i < 0 then CHR ''-'' # str_nat (nat (- i)) else str_nat (nat i))"

record phrase_generator =
  intros :: "string list"
  claims :: "string list"
  tag :: string
  counter :: int

text \<open>\<open>PhraseGenerator.__init__\<close>: both pools must be non-empty; the counter starts at 0.\<close>

definition PhraseGenerator :: "string list \<Rightarrow> string list \<Rightarrow> string \<Rightarrow> error + phrase_generator" where
  "PhraseGenerator is cs t =
     (if is = [] \<or> cs = [] then Inl ValueError
      else Inr \<lparr>intros = is, claims = cs, tag = t, counter = 0\<rparr>)"

text \<open>
  The two subscripts of \<open>__next__\<close>. Python's \<open>%\<close> and \<open>//\<close> on integers are \<open>mod\<close> and
  \<open>div\<close> of \<^typ>\<open>int\<close> (both round towards minus infinity) and raise on a zero divisor.
\<close>

definition intro_index :: "phrase_generator \<Rightarrow> int" where
  "intro_index g = counter g mod int (length (intros g))"

definition claim_index :: "phrase_generator \<Rightarrow> int" where
  "claim_index g = (counter g div int (length (intros g))) mod int (length (claims g))"

text \<open>\<open>xs[i]\<close> with Python's subscript rules: a negative index counts from the end.\<close>

definition py_get :: "'a list \<Rightarrow> int \<Rightarrow> error + 'a" where
  "py_get xs i =
     (if 0 \<le> i \<and> i < int (length xs) then Inr (xs ! nat i)
      else if i < 0 \<and> - int (length xs) \<le> i then Inr (xs ! nat (int (length xs) + i))
      else Inl IndexError)"

text \<open>\<open>PhraseGenerator.__next__\<close>: the phrase and the generator with its counter advanced.\<close>

definition next_phrase :: "phrase_generator \<Rightarrow> error + (string \<times> phrase_generator)" where
  "next_phrase g =
     (if length (intros g) = 0 then Inl ZeroDivisionError
      else (case py_get (intros g) (intro_index g) of
        Inl e \<Rightarrow> Inl e
      | Inr intro \<Rightarrow>
          (if length (claims g) = 0 then Inl ZeroDivisionError
           else (case py_get (claims g) (claim_index g) of
             Inl e \<Rightarrow> Inl e
           | Inr claim \<Rightarrow>
               (let g' = g\<lparr>counter := counter g + 1\<rparr> in
                Inr (intro @ '' '' @ claim @ '' ('' @ tag g' @ '' #'' @ str_int (counter g') @ '')'',
                     g'))))))"

text \<open>The first \<open>n\<close> productions of a generator, by \<open>n\<close> calls of \<open>next\<close> in a row.\<close>

fun productions :: "nat \<Rightarrow> phrase_generator \<Rightarrow> error + (string list \<times> phrase_generator)" where
  "productions 0 g = Inr ([], g)"
| "productions (Suc n) g =
     (case next_phrase g of
        Inl e \<Rightarrow> Inl e
      | Inr (s, g') \<Rightarrow>
          (case productions n g' of
             Inl e \<Rightarrow> Inl e
           | Inr (ss, g'') \<Rightarrow> Inr (s # ss, g'')))"

section \<open>animate\<close>

definition ESC :: string where "ESC = [CHR 0x1B]"
definition MOVE_HOME :: string where "MOVE_HOME = ESC @ ''[H''"
definition CLEAR_SCREEN :: string where "CLEAR_SCREEN = ESC @ ''[2J''"
definition CLEAR_AND_HOME :: string where "CLEAR_AND_HOME = CLEAR_SCREEN @ MOVE_HOME"

text \<open>The newline as a \<^typ>\<open>char\<close>, for the strings that \<open>animate\<close> writes.\<close>

definition LF :: char where "LF = CHR 0x0A"

definition instruction_line :: string where
  "instruction_line = ''Press Ctrl+C to stop.'' @ [LF]"

definition goodbye_line :: string where
  "goodbye_line = CLEAR_AND_HOME @ ''Stopped. Thanks for spinning!'' @ [LF]"

text \<open>
  \<open>animate\<close> acts on the world only through three injected callables: the writer's
  \<open>write\<close>, its optional \<open>flush\<close>, and \<open>sleep_fn\<close>. A run is modelled by the trace of
  these calls, each with its outcome: \<open>None\<close> when the call returned, \<open>Some e\<close> when it
  raised \<open>e\<close>. What the callables do is an environment: a function from the trace so far
  and the call to the outcome. \<open>enable_virtual_terminal_processing\<close> touches none of
  the three and swallows its own failures, so it leaves no event.
\<close>

datatype exc = KeyboardInterrupt | OtherException

datatype call = Write string | Flush | Sleep rat

type_synonym event = "call \<times> exc option"

type_synonym env = "event list \<Rightarrow> call \<Rightarrow> exc option"

definition do_call :: "env \<Rightarrow> event list \<Rightarrow> call \<Rightarrow> event list \<times> exc option" where
  "do_call env tr c = (let r = env tr c in (tr @ [(c, r)], r))"

text \<open>The environment in which every call returns.\<close>

definition quiet_env :: env where
  "quiet_env tr c = None"

text \<open>The environment whose call number \<open>j\<close> (from 0) raises \<open>KeyboardInterrupt\<close>, as when
  the user presses Ctrl+C during it; every other call returns.\<close>

definition interrupt_at :: "nat \<Rightarrow> env" where
  "interrupt_at j tr c = (if length tr = j then Some KeyboardInterrupt else None)"

text \<open>One pass through the loop body up to and including the sleep; the first call
  that raises ends it.\<close>

definition show_frame :: "env \<Rightarrow> bool \<Rightarrow> spinner \<Rightarrow> event list \<Rightarrow> string \<Rightarrow> event list \<times> exc option" where
  "show_frame env has_flush sp tr frame =
     (case do_call env tr (Write (CLEAR_AND_HOME @ frame @ [LF])) of
        (tr1, Some e) \<Rightarrow> (tr1, Some e)
      | (tr1, None) \<Rightarrow>
          (case do_call env tr1 (Write instruction_line) of
             (tr2, Some e) \<Rightarrow> (tr2, Some e)
           | (tr2, None) \<Rightarrow>
               (case (if has_flush then do_call env tr2 Flush else (tr2, None)) of
                  (tr3, Some e) \<Rightarrow> (tr3, Some e)
                | (tr3, None) \<Rightarrow> do_call env tr3 (Sleep (delay sp)))))"

text \<open>
  The \<open>for index, frame in enumerate(spinner.cycle())\<close> loop. It may run forever, so
  its value is an option: \<open>None\<close> when it never ends, otherwise the trace and the
  exception that left the loop, if any.
\<close>

partial_function (option) animate_loop ::
  "env \<Rightarrow> bool \<Rightarrow> spinner \<Rightarrow> int option \<Rightarrow> event list \<Rightarrow> nat \<Rightarrow> (event list \<times> exc option) option" where
  "animate_loop env has_flush sp iterations tr index =
     (case cycle sp index of
        None \<Rightarrow> Some (tr, None)
      | Some frame \<Rightarrow>
          (case show_frame env has_flush sp tr frame of
             (tr', Some e) \<Rightarrow> Some (tr', Some e)
           | (tr', None) \<Rightarrow>
               if (case iterations of None \<Rightarrow> False | Some n \<Rightarrow> int index + 1 \<ge> n)
               then Some (tr', None)
               else animate_loop env has_flush sp iterations tr' (index + 1)))"

declare animate_loop.simps [code]

text \<open>\<open>animate\<close>: the loop inside \<open>try\<close>, and the handler of \<open>KeyboardInterrupt\<close>, whose
  own write is outside the \<open>try\<close>.\<close>

definition animate :: "env \<Rightarrow> bool \<Rightarrow> spinner \<Rightarrow> int option \<Rightarrow> (event list \<times> exc option) option" where
  "animate env has_flush sp iterations =
     (case animate_loop env has_flush sp iterations [] 0 of
        None \<Rightarrow> None
      | Some (tr, Some KeyboardInterrupt) \<Rightarrow> Some (do_call env tr (Write goodbye_line))
      | Some (tr, r) \<Rightarrow> Some (tr, r))"

text \<open>What a run shows: the texts handed to \<open>write\<close> in order (the buffer of a writer
  that records), and the number of calls of the sleep function.\<close>

fun written :: "event list \<Rightarrow> string list" where
  "written [] = []"
| "written ((Write s, r) # tr) = s # written tr"
| "written (_ # tr) = written tr"

fun sleep_calls :: "event list \<Rightarrow> nat" where
  "sleep_calls [] = 0"
| "sleep_calls ((Sleep d, r) # tr) = Suc (sleep_calls tr)"
| "sleep_calls (_ # tr) = sleep_calls tr"

text \<open>\<open>text.count(pat)\<close>: the occurrences of \<open>pat\<close> in \<open>text\<close>, found from the left without
  overlap.\<close>

fun py_count :: "string \<Rightarrow> string \<Rightarrow> nat" where
  "py_count pat [] = (if pat = [] then 1 else 0)"
| "py_count pat (c # cs) =
     (if pat = [] then Suc (py_count pat cs)
      else if prefix pat (c # cs) then Suc (py_count pat (drop (length pat - 1) cs))
      else py_count pat cs)"

section \<open>Construction and parse validation\<close>

lemma isspace_lower_fix: "py_isspace c \<Longrightarrow> lower_char c = c"
  by (auto simp: py_isspace_def lower_char_def)

lemma py_strip_decomp:
  "\<exists>l r. v = l @ py_strip v @ r \<and> list_all py_isspace l \<and> list_all py_isspace r"
proof -
  let ?u = "dropWhile py_isspace v"
  have 1: "v = takeWhile py_isspace v @ ?u" by simp
  have 2: "rev ?u = takeWhile py_isspace (rev ?u) @ dropWhile py_isspace (rev ?u)" by simp
  have "?u = rev (rev ?u)" by simp
  also have "\<dots> = rev (dropWhile py_isspace (rev ?u)) @ rev (takeWhile py_isspace (rev ?u))"
    by (subst 2) (simp only: rev_append)
  finally have 3: "?u = py_strip v @ rev (takeWhile py_isspace (rev ?u))"
    by (simp add: py_strip_def)
  have l: "list_all py_isspace (takeWhile py_isspace v)"
    by (simp add: list_all_iff) (meson set_takeWhileD)
  have r: "list_all py_isspace (rev (takeWhile py_isspace (rev ?u)))"
    by (simp add: list_all_iff) (meson set_takeWhileD)
  from 1 3 have "v = takeWhile py_isspace v @ py_strip v @ rev (takeWhile py_isspace (rev ?u))"
    by metis
  with l r show ?thesis by blast
qed

lemma py_strip_core:
  assumes "list_all py_isspace l" "list_all py_isspace r"
    and "w \<noteq> []" "\<not> py_isspace (hd w)" "\<not> py_isspace (last w)"
  shows "py_strip (l @ w @ r) = w"
proof -
  have "dropWhile py_isspace (l @ w @ r) = dropWhile py_isspace (w @ r)"
    using assms(1) by (simp add: list_all_iff dropWhile_append2)
  also have "\<dots> = w @ r"
    using assms(3,4) by (cases w) auto
  finally have a: "dropWhile py_isspace (l @ w @ r) = w @ r" .
  have "dropWhile py_isspace (rev r @ rev w) = dropWhile py_isspace (rev w)"
    using assms(2) by (intro dropWhile_append2) (simp add: list_all_iff)
  also have "\<dots> = rev w"
    using assms(3,5) by (cases "rev w") (auto simp: last_rev hd_rev)
  finally show ?thesis
    by (simp add: py_strip_def a)
qed


lemma lower_word_ends:
  assumes "py_lower w \<in> {''chip'', ''c'', ''cockroach'', ''roach'', ''r''}"
  shows "w \<noteq> [] \<and> \<not> py_isspace (hd w) \<and> \<not> py_isspace (last w)"
proof -
  from assms have ne: "w \<noteq> []" by (auto simp: py_lower_def)
  from assms have h: "lower_char (hd w) \<in> {CHR ''c'', CHR ''r''}"
    using ne by (cases w) (auto simp: py_lower_def)
  from assms ne have "last (py_lower w) \<in> {CHR ''p'', CHR ''c'', CHR ''h'', CHR ''r''}"
    by auto
  then have t: "lower_char (last w) \<in> {CHR ''p'', CHR ''c'', CHR ''h'', CHR ''r''}"
    using ne by (simp add: py_lower_def last_map)
  have "\<not> py_isspace (hd w)"
  proof
    assume s: "py_isspace (hd w)"
    then have "lower_char (hd w) = hd w" by (rule isspace_lower_fix)
    with h s show False by (auto simp: py_isspace_def)
  qed
  moreover have "\<not> py_isspace (last w)"
  proof
    assume s: "py_isspace (last w)"
    then have "lower_char (last w) = last w" by (rule isspace_lower_fix)
    with t s show False by (auto simp: py_isspace_def)
  qed
  ultimately show ?thesis using ne by simp
qed

lemma lowered_iff:
  assumes "S \<subseteq> {''chip'', ''c'', ''cockroach'', ''roach'', ''r''}"
  shows "py_lower (py_strip v) \<in> S \<longleftrightarrow>
    (\<exists>l w r. v = l @ w @ r \<and> list_all py_isspace l \<and> list_all py_isspace r \<and> py_lower w \<in> S)"
proof
  assume "py_lower (py_strip v) \<in> S"
  with py_strip_decomp [of v] show "\<exists>l w r. v = l @ w @ r \<and> list_all py_isspace l \<and> list_all py_isspace r \<and> py_lower w \<in> S"
    by blast
next
  assume "\<exists>l w r. v = l @ w @ r \<and> list_all py_isspace l \<and> list_all py_isspace r \<and> py_lower w \<in> S"
  then obtain l w r where v: "v = l @ w @ r" and l: "list_all py_isspace l"
    and r: "list_all py_isspace r" and w: "py_lower w \<in> S" by blast
  from w assms have "py_lower w \<in> {''chip'', ''c'', ''cockroach'', ''roach'', ''r''}" by blast
  from lower_word_ends [OF this] have "py_strip (l @ w @ r) = w"
    using l r by (simp add: py_strip_core)
  with v w show "py_lower (py_strip v) \<in> S" by simp
qed

lemma of_char_lower_char:
  fixes n :: nat
  assumes "n = of_char x"
  shows "of_char (lower_char x) =
     (if (65 \<le> n \<and> n \<le> 90) \<or> (192 \<le> n \<and> n \<le> 222 \<and> n \<noteq> 215) then n + 32 else n)"
proof (cases "(65 \<le> n \<and> n \<le> 90) \<or> (192 \<le> n \<and> n \<le> 222 \<and> n \<noteq> 215)")
  case True
  then have "(n + 32) mod 256 = n + 32" by auto
  then have "(of_char (char_of (n + 32)) :: nat) = n + 32"
    by (simp only: of_char_of)
  with True show ?thesis
    unfolding lower_char_def Let_def assms [symmetric] by (simp only: if_True)
next
  case False
  then show ?thesis
    unfolding lower_char_def Let_def assms [symmetric] by (simp only: if_False assms)
qed

lemma lower_char_eq_iff:
  assumes "97 \<le> (of_char y :: nat)" "(of_char y :: nat) \<le> 122"
  shows "lower_char x = y \<longleftrightarrow> x = y \<or> (of_char x :: nat) + 32 = of_char y"
proof -
  define n :: nat where "n = of_char x"
  define m :: nat where "m = of_char y"
  have "lower_char x = y \<longleftrightarrow> (of_char (lower_char x) :: nat) = m"
    unfolding m_def by (simp only: of_char_eq_iff)
  also have "\<dots> \<longleftrightarrow> n = m \<or> n + 32 = m"
    unfolding of_char_lower_char [OF n_def] using assms unfolding m_def [symmetric] by auto
  also have "\<dots> \<longleftrightarrow> x = y \<or> (of_char x :: nat) + 32 = of_char y"
    unfolding n_def m_def by (simp only: of_char_eq_iff)
  finally show ?thesis .
qed

lemma py_lower_eq_iff:
  assumes "\<forall>y \<in> set word. 97 \<le> (of_char y :: nat) \<and> (of_char y :: nat) \<le> 122"
  shows "py_lower w = word \<longleftrightarrow>
         list_all2 (\<lambda>x y. x = y \<or> (of_char x :: nat) + 32 = of_char y) w word"
  using assms
proof (induction w arbitrary: word)
  case Nil
  show ?case by (auto simp: py_lower_def)
next
  case (Cons x xs)
  show ?case
  proof (cases word)
    case Nil
    then show ?thesis by (simp add: py_lower_def)
  next
    case (Cons y ys)
    with Cons.prems have y: "97 \<le> (of_char y :: nat)" "(of_char y :: nat) \<le> 122"
      and ys: "\<forall>y \<in> set ys. 97 \<le> (of_char y :: nat) \<and> (of_char y :: nat) \<le> 122" by simp_all
    from Cons.IH [OF ys] have "map lower_char xs = ys \<longleftrightarrow>
         list_all2 (\<lambda>x y. x = y \<or> (of_char x :: nat) + 32 = of_char y) xs ys"
      by (simp add: py_lower_def)
    with lower_char_eq_iff [OF y, of x] Cons show ?thesis by (simp add: py_lower_def)
  qed
qed

lemma small_letters:
  "\<forall>y \<in> set ''chip''. 97 \<le> (of_char y :: nat) \<and> (of_char y :: nat) \<le> 122"
  "\<forall>y \<in> set ''c''. 97 \<le> (of_char y :: nat) \<and> (of_char y :: nat) \<le> 122"
  "\<forall>y \<in> set ''cockroach''. 97 \<le> (of_char y :: nat) \<and> (of_char y :: nat) \<le> 122"
  "\<forall>y \<in> set ''roach''. 97 \<le> (of_char y :: nat) \<and> (of_char y :: nat) \<le> 122"
  "\<forall>y \<in> set ''r''. 97 \<le> (of_char y :: nat) \<and> (of_char y :: nat) \<le> 122"
  by simp_all

lemma isspace_set: "list_all py_isspace l \<longleftrightarrow>
  set l \<subseteq> {CHR 0x09, CHR 0x0A, CHR 0x0B, CHR 0x0C, CHR 0x0D, CHR 0x1C, CHR 0x1D, CHR 0x1E,
            CHR 0x1F, CHR 0x20, CHR 0x85, CHR 0xA0}"
  unfolding list_all_iff py_isspace_def by (rule subset_eq [symmetric])

text \<open>
  Claim C9. An empty frame sequence makes \<open>Spinner\<close> raise \<open>ValueError\<close>, and so does an
  empty \<open>intros\<close> or an empty \<open>claims\<close> for \<open>PhraseGenerator\<close>. \<open>parse_choice\<close> returns
  \<open>"chip"\<close> exactly for the inputs that consist of whitespace, then \<open>chip\<close> or \<open>c\<close> with
  each letter small or capital, then whitespace; it returns \<open>"cockroach"\<close> exactly for
  those with \<open>cockroach\<close>, \<open>roach\<close> or \<open>r\<close> in that place; and it raises \<open>ValueError\<close> for
  every other string. The whitespace characters are listed in the statement, and a
  letter \<open>x\<close> spells the small letter \<open>y\<close> when it is \<open>y\<close> or its capital, whose code is
  32 less.
\<close>

theorem construction_and_parse_validation:
  fixes v :: string
  defines "ws \<equiv> {CHR 0x09, CHR 0x0A, CHR 0x0B, CHR 0x0C, CHR 0x0D, CHR 0x1C, CHR 0x1D, CHR 0x1E,
                   CHR 0x1F, CHR 0x20, CHR 0x85, CHR 0xA0}"
    and "spelt \<equiv> list_all2 (\<lambda>x y. x = y \<or> (of_char x :: nat) + 32 = of_char y)"
  shows "Spinner [] d = Inl ValueError
   \<and> PhraseGenerator [] cs t = Inl ValueError
   \<and> PhraseGenerator is [] t = Inl ValueError
   \<and> (parse_choice v = Inr ''chip'' \<longleftrightarrow>
        (\<exists>l w r. v = l @ w @ r \<and> set l \<subseteq> ws \<and> set r \<subseteq> ws
                 \<and> (spelt w ''chip'' \<or> spelt w ''c'')))
   \<and> (parse_choice v = Inr ''cockroach'' \<longleftrightarrow>
        (\<exists>l w r. v = l @ w @ r \<and> set l \<subseteq> ws \<and> set r \<subseteq> ws
                 \<and> (spelt w ''cockroach'' \<or> spelt w ''roach'' \<or> spelt w ''r'')))
   \<and> (parse_choice v \<noteq> Inr ''chip'' \<and> parse_choice v \<noteq> Inr ''cockroach''
        \<longrightarrow> parse_choice v = Inl ValueError)"
proof -
  have a: "py_lower (py_strip v) \<in> {''chip'', ''c''} \<longleftrightarrow>
        (\<exists>l w r. v = l @ w @ r \<and> list_all py_isspace l \<and> list_all py_isspace r
                 \<and> py_lower w \<in> {''chip'', ''c''})"
    by (rule lowered_iff) simp
  have b: "py_lower (py_strip v) \<in> {''cockroach'', ''roach'', ''r''} \<longleftrightarrow>
        (\<exists>l w r. v = l @ w @ r \<and> list_all py_isspace l \<and> list_all py_isspace r
                 \<and> py_lower w \<in> {''cockroach'', ''roach'', ''r''})"
    by (rule lowered_iff) simp
  have sp: "list_all py_isspace l \<longleftrightarrow> set l \<subseteq> ws" for l
    unfolding ws_def by (rule isspace_set)
  have w1: "py_lower w \<in> {''chip'', ''c''} \<longleftrightarrow> spelt w ''chip'' \<or> spelt w ''c''" for w
    unfolding spelt_def
    using py_lower_eq_iff [OF small_letters(1), of w] py_lower_eq_iff [OF small_letters(2), of w]
    by blast
  have w2: "py_lower w \<in> {''cockroach'', ''roach'', ''r''}
              \<longleftrightarrow> spelt w ''cockroach'' \<or> spelt w ''roach'' \<or> spelt w ''r''" for w
    unfolding spelt_def
    using py_lower_eq_iff [OF small_letters(3), of w] py_lower_eq_iff [OF small_letters(4), of w]
      py_lower_eq_iff [OF small_letters(5), of w]
    by blast
  have c: "parse_choice v = Inr ''chip'' \<longleftrightarrow> py_lower (py_strip v) \<in> {''chip'', ''c''}"
    by (simp add: parse_choice_def Let_def)
  have d: "parse_choice v = Inr ''cockroach'' \<longleftrightarrow> py_lower (py_strip v) \<in> {''cockroach'', ''roach'', ''r''}"
    by (auto simp add: parse_choice_def Let_def)
  have e: "parse_choice v \<noteq> Inr ''chip'' \<and> parse_choice v \<noteq> Inr ''cockroach''
        \<longrightarrow> parse_choice v = Inl ValueError"
    by (simp add: parse_choice_def Let_def)
  have f: "Spinner [] d = Inl ValueError"
    by (simp add: Spinner_def)
  have g: "PhraseGenerator [] cs t = Inl ValueError" "PhraseGenerator is [] t = Inl ValueError"
    by (simp_all add: PhraseGenerator_def)
  have c': "parse_choice v = Inr ''chip'' \<longleftrightarrow>
        (\<exists>l w r. v = l @ w @ r \<and> set l \<subseteq> ws \<and> set r \<subseteq> ws
                 \<and> (spelt w ''chip'' \<or> spelt w ''c''))"
    unfolding c a by (simp only: sp w1)
  have d': "parse_choice v = Inr ''cockroach'' \<longleftrightarrow>
        (\<exists>l w r. v = l @ w @ r \<and> set l \<subseteq> ws \<and> set r \<subseteq> ws
                 \<and> (spelt w ''cockroach'' \<or> spelt w ''roach'' \<or> spelt w ''r''))"
    unfolding d b by (simp only: sp w2)
  from c' d' e f g show ?thesis by blast
qed

theorem construction_and_parse_validation_witness:
  "parse_choice ''chip'' = Inr ''chip''
   \<and> parse_choice ''C'' = Inr ''chip''
   \<and> parse_choice ([CHR 0x09] @ ''ChIp'' @ [CHR 0x20, CHR 0x0A]) = Inr ''chip''
   \<and> parse_choice ''roach'' = Inr ''cockroach''
   \<and> parse_choice ''R'' = Inr ''cockroach''
   \<and> parse_choice ([CHR 0x20] @ ''CockRoach'' @ []) = Inr ''cockroach''
   \<and> parse_choice ''invalid'' = Inl ValueError"
proof -
  let ?ws = "{CHR 0x09, CHR 0x0A, CHR 0x0B, CHR 0x0C, CHR 0x0D, CHR 0x1C, CHR 0x1D, CHR 0x1E,
                   CHR 0x1F, CHR 0x20, CHR 0x85, CHR 0xA0}"
  let ?spelt = "list_all2 (\<lambda>x y. x = y \<or> (of_char x :: nat) + 32 = of_char y)"
  have chip: "parse_choice (l @ w @ r) = Inr ''chip''"
    if "set l \<subseteq> ?ws" "set r \<subseteq> ?ws" "?spelt w ''chip'' \<or> ?spelt w ''c''" for l w r
    using construction_and_parse_validation [of 0 "[]" "[]" "[]" "l @ w @ r"] that by blast
  have roach: "parse_choice (l @ w @ r) = Inr ''cockroach''"
    if "set l \<subseteq> ?ws" "set r \<subseteq> ?ws"
       "?spelt w ''cockroach'' \<or> ?spelt w ''roach'' \<or> ?spelt w ''r''" for l w r
    using construction_and_parse_validation [of 0 "[]" "[]" "[]" "l @ w @ r"] that by blast
  have 1: "parse_choice ''chip'' = Inr ''chip''"
    using chip [of "[]" "[]" "''chip''"] by simp
  have 2: "parse_choice ''C'' = Inr ''chip''"
    using chip [of "[]" "[]" "''C''"] by simp
  have 3: "parse_choice ([CHR 0x09] @ ''ChIp'' @ [CHR 0x20, CHR 0x0A]) = Inr ''chip''"
    by (rule chip) simp_all
  have 4: "parse_choice ''roach'' = Inr ''cockroach''"
    using roach [of "[]" "[]" "''roach''"] by simp
  have 5: "parse_choice ''R'' = Inr ''cockroach''"
    using roach [of "[]" "[]" "''R''"] by simp
  have 6: "parse_choice ([CHR 0x20] @ ''CockRoach'' @ []) = Inr ''cockroach''"
    by (rule roach) simp_all
  have h: "parse_choice ''invalid'' \<noteq> Inr ''chip'' \<and> parse_choice ''invalid'' \<noteq> Inr ''cockroach''"
    by (simp add: parse_choice_def py_strip_def py_lower_def lower_char_def py_isspace_def)
  with construction_and_parse_validation [of 0 "[]" "[]" "[]" "''invalid''"]
  have 7: "parse_choice ''invalid'' = Inl ValueError" by blast
  from 1 2 3 4 5 6 7 show ?thesis by (intro conjI)
qed

section \<open>PhraseGenerator: the productions\<close>

lemma py_get_in_range: "0 \<le> i \<Longrightarrow> i < int (length xs) \<Longrightarrow> py_get xs i = Inr (xs ! nat i)"
  by (simp add: py_get_def)

lemma next_phrase_ok:
  assumes "intros g \<noteq> []" "claims g \<noteq> []"
  shows "next_phrase g =
    Inr (intros g ! nat (counter g mod int (length (intros g))) @ '' '' @
         claims g ! nat ((counter g div int (length (intros g))) mod int (length (claims g))) @
         '' ('' @ tag g @ '' #'' @ str_int (counter g + 1) @ '')'',
         g\<lparr>counter := counter g + 1\<rparr>)"
proof -
  have a: "0 \<le> intro_index g" "intro_index g < int (length (intros g))"
    using assms(1) by (simp_all add: intro_index_def)
  have b: "0 \<le> claim_index g" "claim_index g < int (length (claims g))"
    using assms(2) by (simp_all add: claim_index_def)
  show ?thesis
    using assms
    by (simp add: next_phrase_def py_get_in_range [OF a] py_get_in_range [OF b] Let_def)
       (simp add: intro_index_def claim_index_def)
qed

lemma productions_ok:
  assumes "intros g \<noteq> []" "claims g \<noteq> []"
  shows "\<exists>ss. productions N g = Inr (ss, g\<lparr>counter := counter g + int N\<rparr>) \<and> length ss = N \<and>
    (\<forall>k<N. ss ! k =
       intros g ! nat ((counter g + int k) mod int (length (intros g))) @ '' '' @
       claims g ! nat (((counter g + int k) div int (length (intros g))) mod int (length (claims g))) @
       '' ('' @ tag g @ '' #'' @ str_int (counter g + int k + 1) @ '')'')"
  using assms
proof (induction N arbitrary: g)
  case 0
  then show ?case by simp
next
  case (Suc N)
  let ?g' = "g\<lparr>counter := counter g + 1\<rparr>"
  have g': "intros ?g' \<noteq> []" "claims ?g' \<noteq> []" using Suc.prems by simp_all
  from Suc.IH [OF g'] obtain ss where
    ss: "productions N ?g' = Inr (ss, ?g'\<lparr>counter := counter ?g' + int N\<rparr>)" "length ss = N"
    and nth: "\<forall>k<N. ss ! k =
       intros ?g' ! nat ((counter ?g' + int k) mod int (length (intros ?g'))) @ '' '' @
       claims ?g' ! nat (((counter ?g' + int k) div int (length (intros ?g'))) mod int (length (claims ?g'))) @
       '' ('' @ tag ?g' @ '' #'' @ str_int (counter ?g' + int k + 1) @ '')''"
    by blast
  let ?s = "intros g ! nat (counter g mod int (length (intros g))) @ '' '' @
         claims g ! nat ((counter g div int (length (intros g))) mod int (length (claims g))) @
         '' ('' @ tag g @ '' #'' @ str_int (counter g + 1) @ '')''"
  have np: "next_phrase g = Inr (?s, ?g')" by (rule next_phrase_ok [OF Suc.prems])
  have p: "productions (Suc N) g = Inr (?s # ss, g\<lparr>counter := counter g + int (Suc N)\<rparr>)"
    by (simp add: np ss add.assoc)
  have "\<forall>k<Suc N. (?s # ss) ! k =
       intros g ! nat ((counter g + int k) mod int (length (intros g))) @ '' '' @
       claims g ! nat (((counter g + int k) div int (length (intros g))) mod int (length (claims g))) @
       '' ('' @ tag g @ '' #'' @ str_int (counter g + int k + 1) @ '')''"
  proof (intro allI impI)
    fix k assume "k < Suc N"
    show "(?s # ss) ! k =
       intros g ! nat ((counter g + int k) mod int (length (intros g))) @ '' '' @
       claims g ! nat (((counter g + int k) div int (length (intros g))) mod int (length (claims g))) @
       '' ('' @ tag g @ '' #'' @ str_int (counter g + int k + 1) @ '')''"
    proof (cases k)
      case 0
      then show ?thesis by simp
    next
      case (Suc j)
      with \<open>k < Suc N\<close> have "j < N" by simp
      with nth have "ss ! j = intros ?g' ! nat ((counter ?g' + int j) mod int (length (intros ?g'))) @ '' '' @
       claims ?g' ! nat (((counter ?g' + int j) div int (length (intros ?g'))) mod int (length (claims ?g'))) @
       '' ('' @ tag ?g' @ '' #'' @ str_int (counter ?g' + int j + 1) @ '')''" by blast
      then show ?thesis using Suc by (simp add: add.assoc add.commute add.left_commute)
    qed
  qed
  with p ss(2) show ?case by auto
qed

lemma of_char_digit_char: "d < 10 \<Longrightarrow> (of_char (digit_char d) :: nat) = 48 + d"
proof -
  assume "d < 10"
  then have "(48 + d) mod 256 = 48 + d" by simp
  then show ?thesis unfolding digit_char_def by (simp only: of_char_of)
qed

lemma digit_char_inj: "a < 10 \<Longrightarrow> b < 10 \<Longrightarrow> digit_char a = digit_char b \<Longrightarrow> a = b"
proof -
  assume a: "a < 10" and b: "b < 10" and e: "digit_char a = digit_char b"
  from e have "(of_char (digit_char a) :: nat) = of_char (digit_char b)" by (simp only:)
  then show "a = b" by (simp only: of_char_digit_char [OF a] of_char_digit_char [OF b] add_left_cancel)
qed

lemma of_char_hash: "(of_char (CHR ''#'') :: nat) = 35"
  by simp

lemma digit_char_not_hash: "d < 10 \<Longrightarrow> digit_char d \<noteq> CHR ''#''"
proof
  assume d: "d < 10" and e: "digit_char d = CHR ''#''"
  from e have "(of_char (digit_char d) :: nat) = of_char (CHR ''#'')" by (simp only:)
  then have "48 + d = 35" by (simp only: of_char_digit_char [OF d] of_char_hash)
  then show False by simp
qed

lemma str_nat_nonempty: "str_nat n \<noteq> []"
  by (subst str_nat.simps) simp

lemma str_nat_no_hash: "CHR ''#'' \<notin> set (str_nat n)"
proof (induction n rule: str_nat.induct)
  case (1 n)
  show ?case
  proof (cases "n < 10")
    case True
    then show ?thesis using digit_char_not_hash [of n] by (subst str_nat.simps) auto
  next
    case False
    have "n mod 10 < 10" by simp
    from digit_char_not_hash [OF this] 1 [OF False] show ?thesis
      using False by (subst str_nat.simps) auto
  qed
qed

lemma str_nat_inj: "str_nat m = str_nat n \<Longrightarrow> m = n"
proof (induction m arbitrary: n rule: str_nat.induct)
  case (1 m)
  show ?case
  proof (cases "m < 10")
    case m: True
    show ?thesis
    proof (cases "n < 10")
      case True
      with m 1(2) show ?thesis
        using digit_char_inj [of m n] by (simp add: str_nat.simps [of m] str_nat.simps [of n])
    next
      case False
      with m 1(2) show ?thesis
        using str_nat_nonempty [of "n div 10"]
        by (simp add: str_nat.simps [of m] str_nat.simps [of n])
    qed
  next
    case m: False
    show ?thesis
    proof (cases "n < 10")
      case True
      with m 1(2) show ?thesis
        using str_nat_nonempty [of "m div 10"]
        by (simp add: str_nat.simps [of m] str_nat.simps [of n])
    next
      case False
      with m 1(2) have e: "str_nat (m div 10) = str_nat (n div 10)"
        and d: "digit_char (m mod 10) = digit_char (n mod 10)"
        by (simp_all add: str_nat.simps [of m] str_nat.simps [of n])
      from 1(1) [OF m e] have "m div 10 = n div 10" .
      moreover from d have "m mod 10 = n mod 10" by (intro digit_char_inj) simp_all
      ultimately show ?thesis by (metis div_mult_mod_eq)
    qed
  qed
qed

lemma phrase_number_unique:
  assumes "X @ '' #'' @ str_nat m @ '')'' = Y @ '' #'' @ str_nat n @ '')''"
  shows "m = n"
proof -
  from assms have "rev (X @ '' #'' @ str_nat m @ '')'') = rev (Y @ '' #'' @ str_nat n @ '')'')"
    by (simp only:)
  then have e: "rev (str_nat m) @ CHR ''#'' # CHR '' '' # rev X = rev (str_nat n) @ CHR ''#'' # CHR '' '' # rev Y"
    by simp
  have t: "takeWhile (\<lambda>c. c \<noteq> CHR ''#'') (rev (str_nat k) @ CHR ''#'' # zs) = rev (str_nat k)" for k zs
    using str_nat_no_hash [of k] by (subst takeWhile_append2) auto
  from e have "takeWhile (\<lambda>c. c \<noteq> CHR ''#'') (rev (str_nat m) @ CHR ''#'' # CHR '' '' # rev X)
    = takeWhile (\<lambda>c. c \<noteq> CHR ''#'') (rev (str_nat n) @ CHR ''#'' # CHR '' '' # rev Y)" by simp
  then have "rev (str_nat m) = rev (str_nat n)" by (simp only: t)
  then show ?thesis by (simp add: str_nat_inj)
qed

lemma index_pair_inj:
  fixes a b :: nat
  assumes "i < a * b" "j < a * b" "i mod a = j mod a" "(i div a) mod b = (j div a) mod b"
  shows "i = j"
proof -
  have "a > 0" using assms(1) by (cases a) auto
  have "i div a < b" using assms(1) \<open>a > 0\<close> by (simp add: less_mult_imp_div_less mult.commute)
  moreover have "j div a < b" using assms(2) \<open>a > 0\<close> by (simp add: less_mult_imp_div_less mult.commute)
  ultimately have "i div a = j div a" using assms(4) by simp
  with assms(3) show ?thesis by (metis div_mult_mod_eq)
qed

lemma next_phrase_counter: "next_phrase h = Inr (s, h') \<Longrightarrow> counter h' = counter h + 1"
  by (auto simp: next_phrase_def Let_def split: if_splits sum.splits)

lemma str_int_nat: "str_int (int n) = str_nat n"
  by (simp add: str_int_def)

lemma productions_constructed:
  assumes "is \<noteq> []" "cs \<noteq> []"
  shows "\<exists>ss. productions N \<lparr>intros = is, claims = cs, tag = t, counter = 0\<rparr>
           = Inr (ss, \<lparr>intros = is, claims = cs, tag = t, counter = int N\<rparr>) \<and> length ss = N \<and>
    (\<forall>k<N. ss ! k =
       is ! (k mod length is) @ '' '' @ cs ! ((k div length is) mod length cs) @
       '' ('' @ t @ '' #'' @ str_nat (Suc k) @ '')'')"
proof -
  let ?g = "\<lparr>intros = is, claims = cs, tag = t, counter = 0\<rparr>"
  have "intros ?g \<noteq> []" "claims ?g \<noteq> []" using assms by simp_all
  from productions_ok [OF this, of N] obtain ss where
    p: "productions N ?g = Inr (ss, ?g\<lparr>counter := counter ?g + int N\<rparr>)" and l: "length ss = N"
    and nth: "\<forall>k<N. ss ! k =
       intros ?g ! nat ((counter ?g + int k) mod int (length (intros ?g))) @ '' '' @
       claims ?g ! nat (((counter ?g + int k) div int (length (intros ?g))) mod int (length (claims ?g))) @
       '' ('' @ tag ?g @ '' #'' @ str_int (counter ?g + int k + 1) @ '')''"
    by blast
  have "\<forall>k<N. ss ! k =
       is ! (k mod length is) @ '' '' @ cs ! ((k div length is) mod length cs) @
       '' ('' @ t @ '' #'' @ str_nat (Suc k) @ '')''"
  proof (intro allI impI)
    fix k assume "k < N"
    have a: "nat (int k mod int (length is)) = k mod length is"
      by (simp add: zmod_int [symmetric])
    have b: "nat ((int k div int (length is)) mod int (length cs)) = (k div length is) mod length cs"
      by (simp add: zmod_int [symmetric] zdiv_int [symmetric])
    have c: "str_int (int k + 1) = str_nat (Suc k)"
      using str_int_nat [of "Suc k"] by (simp add: add.commute)
    from nth \<open>k < N\<close> show "ss ! k =
       is ! (k mod length is) @ '' '' @ cs ! ((k div length is) mod length cs) @
       '' ('' @ t @ '' #'' @ str_nat (Suc k) @ '')''"
      by (simp add: a b c)
  qed
  with p l show ?thesis by simp
qed

text \<open>
  Claim C4. A generator constructed from non-empty \<open>intros\<close> and \<open>claims\<close> and a tag \<open>t\<close>
  starts with counter 0, and among its first \<open>N\<close> productions the \<open>n\<close>-th (counted from 1)
  is \<open>"<intro> <claim> (<t> #<n>)"\<close> with \<open>intro = intros[(n-1) % len(intros)]\<close> and
  \<open>claim = claims[((n-1) // len(intros)) % len(claims)]\<close>. After \<open>N\<close> productions the
  counter is \<open>N\<close>, and every single production adds exactly 1 to it. The productions
  are a function of the construction, hence deterministic.
\<close>

theorem nth_production:
  assumes "is \<noteq> []" and "cs \<noteq> []" and "1 \<le> n" and "n \<le> N"
  shows "\<exists>g ss g'. PhraseGenerator is cs t = Inr g \<and> counter g = 0
           \<and> productions N g = Inr (ss, g') \<and> length ss = N \<and> counter g' = int N
           \<and> ss ! (n - 1) =
               is ! ((n - 1) mod length is) @ '' '' @
               cs ! (((n - 1) div length is) mod length cs) @
               '' ('' @ t @ '' #'' @ str_int (int n) @ '')''
           \<and> (\<forall>h s h'. next_phrase h = Inr (s, h') \<longrightarrow> counter h' = counter h + 1)"
proof -
  from productions_constructed [OF assms(1,2), of N t] obtain ss where
    p: "productions N \<lparr>intros = is, claims = cs, tag = t, counter = 0\<rparr>
           = Inr (ss, \<lparr>intros = is, claims = cs, tag = t, counter = int N\<rparr>)" and l: "length ss = N"
    and nth: "\<forall>k<N. ss ! k =
       is ! (k mod length is) @ '' '' @ cs ! ((k div length is) mod length cs) @
       '' ('' @ t @ '' #'' @ str_nat (Suc k) @ '')''"
    by blast
  from assms(3,4) have "n - 1 < N" and "Suc (n - 1) = n" by simp_all
  with nth have "ss ! (n - 1) =
       is ! ((n - 1) mod length is) @ '' '' @ cs ! (((n - 1) div length is) mod length cs) @
       '' ('' @ t @ '' #'' @ str_int (int n) @ '')''"
    by (metis str_int_nat)
  moreover have "PhraseGenerator is cs t = Inr \<lparr>intros = is, claims = cs, tag = t, counter = 0\<rparr>"
    using assms(1,2) by (simp add: PhraseGenerator_def)
  ultimately show ?thesis
    using p l next_phrase_counter by (intro exI conjI) (assumption | simp | blast)+
qed

theorem nth_production_witness:
  "\<exists>g ss g'. PhraseGenerator [''a'', ''b''] [''c'', ''d''] ''tag'' = Inr g
      \<and> productions 6 g = Inr (ss, g') \<and> counter g' = 6 \<and> ss ! 2 = ''a d (tag #3)''"
proof -
  have h: "[''a'', ''b''] \<noteq> []" "[''c'', ''d''] \<noteq> []" "(1::nat) \<le> 3" "(3::nat) \<le> 6"
    by simp_all
  from nth_production [OF h, of "''tag''"]
  obtain g ss g' where g: "PhraseGenerator [''a'', ''b''] [''c'', ''d''] ''tag'' = Inr g"
    and p: "productions 6 g = Inr (ss, g')" and c: "counter g' = int 6"
    and s: "ss ! (3 - 1) = [''a'', ''b''] ! ((3 - 1) mod length [''a'', ''b'']) @ '' '' @
               [''c'', ''d''] ! (((3 - 1) div length [''a'', ''b'']) mod length [''c'', ''d'']) @
               '' ('' @ ''tag'' @ '' #'' @ str_int (int 3) @ '')''"
    by blast
  have rhs: "[''a'', ''b''] ! ((3 - 1) mod length [''a'', ''b'']) @ '' '' @
               [''c'', ''d''] ! (((3 - 1) div length [''a'', ''b'']) mod length [''c'', ''d'']) @
               '' ('' @ ''tag'' @ '' #'' @ str_int (int 3) @ '')'' = ''a d (tag #3)''"
    by code_simp
  have "(3::nat) - 1 = 2" by simp
  with s rhs have "ss ! 2 = ''a d (tag #3)''" by (simp only:)
  with g p c show ?thesis by auto
qed

text \<open>
  Claim C5. The first \<open>N\<close> productions of a generator constructed from non-empty pools
  are pairwise distinct, so their set has exactly \<open>N\<close> elements; and the pair of
  subscripts (into \<open>intros\<close>, into \<open>claims\<close>) takes a different value at each of the counter
  values below \<open>len(intros) * len(claims)\<close>.
\<close>

theorem productions_never_repeat:
  assumes "is \<noteq> []" and "cs \<noteq> []"
  shows "\<exists>g ss g'. PhraseGenerator is cs t = Inr g \<and> productions N g = Inr (ss, g')
           \<and> length ss = N \<and> distinct ss \<and> card (set ss) = N
           \<and> inj_on (\<lambda>k. (intro_index (g\<lparr>counter := int k\<rparr>), claim_index (g\<lparr>counter := int k\<rparr>)))
                {..<length is * length cs}"
proof -
  let ?g = "\<lparr>intros = is, claims = cs, tag = t, counter = 0\<rparr>"
  from productions_constructed [OF assms(1,2), of N t] obtain ss where
    p: "productions N ?g = Inr (ss, \<lparr>intros = is, claims = cs, tag = t, counter = int N\<rparr>)"
    and l: "length ss = N"
    and nth: "\<forall>k<N. ss ! k =
       is ! (k mod length is) @ '' '' @ cs ! ((k div length is) mod length cs) @
       '' ('' @ t @ '' #'' @ str_nat (Suc k) @ '')''"
    by blast
  have shape: "ss ! k = (is ! (k mod length is) @ '' '' @ cs ! ((k div length is) mod length cs) @
       '' ('' @ t) @ '' #'' @ str_nat (Suc k) @ '')''" if "k < N" for k
    using nth that by simp
  have "distinct ss"
    unfolding distinct_conv_nth
  proof (intro allI impI)
    fix i j assume i: "i < length ss" and j: "j < length ss" and ne: "i \<noteq> j"
    show "ss ! i \<noteq> ss ! j"
    proof
      assume "ss ! i = ss ! j"
      with shape [of i] shape [of j] i j l
      have "(is ! (i mod length is) @ '' '' @ cs ! ((i div length is) mod length cs) @
       '' ('' @ t) @ '' #'' @ str_nat (Suc i) @ '')'' =
        (is ! (j mod length is) @ '' '' @ cs ! ((j div length is) mod length cs) @
       '' ('' @ t) @ '' #'' @ str_nat (Suc j) @ '')''" by (simp only:)
      then have "Suc i = Suc j" by (rule phrase_number_unique)
      with ne show False by simp
    qed
  qed
  moreover from this l have "card (set ss) = N" by (simp add: distinct_card)
  moreover have "inj_on (\<lambda>k. (intro_index (?g\<lparr>counter := int k\<rparr>), claim_index (?g\<lparr>counter := int k\<rparr>)))
                {..<length is * length cs}"
  proof (rule inj_onI)
    fix i j assume i: "i \<in> {..<length is * length cs}" and j: "j \<in> {..<length is * length cs}"
      and e: "(intro_index (?g\<lparr>counter := int i\<rparr>), claim_index (?g\<lparr>counter := int i\<rparr>))
            = (intro_index (?g\<lparr>counter := int j\<rparr>), claim_index (?g\<lparr>counter := int j\<rparr>))"
    from e have "int (i mod length is) = int (j mod length is)"
      and "int ((i div length is) mod length cs) = int ((j div length is) mod length cs)"
      by (simp_all add: intro_index_def claim_index_def zmod_int zdiv_int)
    then have "i mod length is = j mod length is"
      and "(i div length is) mod length cs = (j div length is) mod length cs"
      by (simp_all only: int_int_eq)
    with i j show "i = j" by (intro index_pair_inj [of i "length is" "length cs" j]) simp_all
  qed
  moreover have "PhraseGenerator is cs t = Inr ?g"
    using assms by (simp add: PhraseGenerator_def)
  ultimately show ?thesis using p l by (intro exI conjI) (assumption | simp)+
qed

theorem productions_never_repeat_witness:
  "\<exists>g ss g'. PhraseGenerator [''a'', ''b''] [''c'', ''d''] ''tag'' = Inr g
      \<and> productions 6 g = Inr (ss, g') \<and> distinct ss \<and> card (set ss) = 6"
  using productions_never_repeat [of "[''a'', ''b'']" "[''c'', ''d'']" "''tag''" 6]
  by auto

section \<open>animate: the loop\<close>

lemma written_append: "written (a @ b) = written a @ written b"
  by (induction a rule: written.induct) simp_all

lemma sleep_calls_append: "sleep_calls (a @ b) = sleep_calls a + sleep_calls b"
  by (induction a rule: sleep_calls.induct) simp_all

lemma show_frame_shape:
  assumes "show_frame env has_flush sp tr frame = (tr', r)"
  shows "\<exists>pre. tr' = tr @ pre \<and> pre \<noteq> [] \<and> snd (last pre) = r
           \<and> (\<forall>e \<in> set (butlast pre). snd e = None)
           \<and> sleep_calls pre \<le> 1
           \<and> set (written pre) \<subseteq> {CLEAR_AND_HOME @ frame @ [LF], instruction_line}"
  using assms
  by (auto simp: show_frame_def do_call_def Let_def split: option.splits if_splits)

lemma show_frame_quiet:
  "show_frame quiet_env has_flush sp tr frame =
     (tr @ [(Write (CLEAR_AND_HOME @ frame @ [LF]), None), (Write instruction_line, None)]
         @ (if has_flush then [(Flush, None)] else []) @ [(Sleep (delay sp), None)], None)"
  by (simp add: show_frame_def do_call_def quiet_env_def)

lemma cycle_Some: "frames sp \<noteq> [] \<Longrightarrow> cycle sp i = Some (frames sp ! (i mod length (frames sp)))"
  by (simp add: cycle_def)

lemma cycle_in_frames: "cycle sp i = Some f \<Longrightarrow> f \<in> set (frames sp)"
  by (auto simp: cycle_def split: if_splits)

lemma loop_bounded:
  "\<exists>tr' r. animate_loop env has_flush sp (Some n) tr index = Some (tr', r)
       \<and> sleep_calls tr' \<le> sleep_calls tr + (max (Suc index) (nat n) - index)"
proof (induction "nat n - Suc index" arbitrary: tr index)
  case 0
  then have stop: "n \<le> int index + 1" by linarith
  show ?case
  proof (cases "cycle sp index")
    case None
    then show ?thesis by (subst animate_loop.simps) simp
  next
    case (Some frame)
    obtain tr1 r1 where sf: "show_frame env has_flush sp tr frame = (tr1, r1)"
      by (cases "show_frame env has_flush sp tr frame")
    from show_frame_shape [OF sf] have "sleep_calls tr1 \<le> sleep_calls tr + 1"
      by (auto simp: sleep_calls_append)
    then have b: "sleep_calls tr1 \<le> sleep_calls tr + (max (Suc index) (nat n) - index)"
      by simp
    show ?thesis
      using Some sf stop b by (subst animate_loop.simps) (cases r1; simp)
  qed
next
  case (Suc k)
  from Suc.hyps(2) have more: "\<not> n \<le> int index + 1" by linarith
  from Suc.hyps(2) have k: "k = nat n - Suc (Suc index)" by linarith
  show ?case
  proof (cases "cycle sp index")
    case None
    then show ?thesis by (subst animate_loop.simps) simp
  next
    case (Some frame)
    obtain tr1 r1 where sf: "show_frame env has_flush sp tr frame = (tr1, r1)"
      by (cases "show_frame env has_flush sp tr frame")
    from show_frame_shape [OF sf] have s1: "sleep_calls tr1 \<le> sleep_calls tr + 1"
      by (auto simp: sleep_calls_append)
    show ?thesis
    proof (cases r1)
      case None
      from Suc.hyps(1) [OF k, of tr1] obtain tr' r where
        rec: "animate_loop env has_flush sp (Some n) tr1 (Suc index) = Some (tr', r)"
        and b: "sleep_calls tr' \<le> sleep_calls tr1 + (max (Suc (Suc index)) (nat n) - Suc index)"
        by blast
      from b s1 more have "sleep_calls tr' \<le> sleep_calls tr + (max (Suc index) (nat n) - index)"
        by simp
      with rec show ?thesis
        using Some sf None more by (subst animate_loop.simps) simp
    next
      case (Some e)
      from s1 have "sleep_calls tr1 \<le> sleep_calls tr + (max (Suc index) (nat n) - index)"
        by simp
      then show ?thesis
        using \<open>cycle sp index = Some frame\<close> sf Some by (subst animate_loop.simps) simp
    qed
  qed
qed

lemma loop_quiet:
  assumes "frames sp \<noteq> []"
  shows "\<exists>tr'. animate_loop quiet_env has_flush sp (Some n) tr index = Some (tr', None)
       \<and> written tr' = written tr @ concat (map (\<lambda>i. [CLEAR_AND_HOME @ frames sp ! (i mod length (frames sp)) @ [LF], instruction_line])
                                              [index..<max (Suc index) (nat n)])
       \<and> sleep_calls tr' = sleep_calls tr + (max (Suc index) (nat n) - index)"
proof (induction "nat n - Suc index" arbitrary: tr index)
  case 0
  then have stop: "n \<le> int index + 1" by linarith
  then have m: "max (Suc index) (nat n) = Suc index" by simp
  show ?case
    unfolding m using stop
    by (subst animate_loop.simps)
       (simp add: cycle_Some [OF assms] show_frame_quiet written_append sleep_calls_append)
next
  case (Suc k)
  from Suc.hyps(2) have more: "\<not> n \<le> int index + 1" by linarith
  from Suc.hyps(2) have k: "k = nat n - Suc (Suc index)" by linarith
  from Suc.hyps(2) have m: "max (Suc index) (nat n) = nat n" "max (Suc (Suc index)) (nat n) = nat n"
    and lt: "index < nat n" by linarith+
  let ?tr1 = "tr @ [(Write (CLEAR_AND_HOME @ frames sp ! (index mod length (frames sp)) @ [LF]), None), (Write instruction_line, None)]
         @ (if has_flush then [(Flush, None)] else []) @ [(Sleep (delay sp), None)]"
  from Suc.hyps(1) [OF k, of ?tr1] obtain tr' where
    rec: "animate_loop quiet_env has_flush sp (Some n) ?tr1 (Suc index) = Some (tr', None)"
    and w: "written tr' = written ?tr1 @ concat (map (\<lambda>i. [CLEAR_AND_HOME @ frames sp ! (i mod length (frames sp)) @ [LF], instruction_line])
                                              [Suc index..<nat n])"
    and s: "sleep_calls tr' = sleep_calls ?tr1 + (nat n - Suc index)"
    unfolding m by blast
  have unf: "animate_loop quiet_env has_flush sp (Some n) tr index = Some (tr', None)"
    using more rec
    by (subst animate_loop.simps) (simp add: cycle_Some [OF assms] show_frame_quiet)
  have w': "written tr' = written tr @ concat (map (\<lambda>i. [CLEAR_AND_HOME @ frames sp ! (i mod length (frames sp)) @ [LF], instruction_line])
                                              [index..<nat n])"
    using w lt by (simp add: written_append upt_conv_Cons)
  have s': "sleep_calls tr' = sleep_calls tr + (nat n - index)"
    using s lt by (simp add: sleep_calls_append)
  from unf w' s' show ?case unfolding m by blast
qed

lemma loop_shape:
  assumes "animate_loop env has_flush sp iterations tr0 i = Some (tr, r)"
  shows "\<exists>pre. tr = tr0 @ pre \<and> (pre = [] \<longrightarrow> r = None) \<and> (pre \<noteq> [] \<longrightarrow> snd (last pre) = r)
           \<and> (\<forall>e \<in> set (butlast pre). snd e = None)
           \<and> set (written pre) \<subseteq> insert instruction_line ((\<lambda>f. CLEAR_AND_HOME @ f @ [LF]) ` set (frames sp))"
proof -
  let ?W = "\<lambda>sp. insert instruction_line ((\<lambda>f. CLEAR_AND_HOME @ f @ [LF]) ` set (frames sp))"
  let ?P = "\<lambda>(env::env) (has_flush::bool) sp (iterations::int option) tr0 (i::nat) y.
     \<exists>pre. fst y = tr0 @ pre \<and> (pre = [] \<longrightarrow> snd y = None) \<and> (pre \<noteq> [] \<longrightarrow> snd (last pre) = snd y)
           \<and> (\<forall>e \<in> set (butlast pre). snd e = None) \<and> set (written pre) \<subseteq> ?W sp"
  have "?P env has_flush sp iterations tr0 i (tr, r)"
  proof (rule animate_loop.raw_induct [where P = ?P, OF _ assms])
    fix loop :: "env \<Rightarrow> bool \<Rightarrow> spinner \<Rightarrow> int option \<Rightarrow> event list \<Rightarrow> nat \<Rightarrow> (event list \<times> exc option) option"
    fix env has_flush sp iterations tr index y
    assume IH: "\<And>env has_flush sp iterations tr index y.
        loop env has_flush sp iterations tr index = Some y \<Longrightarrow> ?P env has_flush sp iterations tr index y"
    assume body: "(case cycle sp index of None \<Rightarrow> Some (tr, None)
      | Some frame \<Rightarrow>
          (case show_frame env has_flush sp tr frame of
             (tr', None) \<Rightarrow>
               (if (case iterations of None \<Rightarrow> False | Some n \<Rightarrow> n \<le> int index + 1)
                then Some (tr', None)
                else loop env has_flush sp iterations tr' (index + 1))
           | (tr', Some e) \<Rightarrow> Some (tr', Some e))) = Some y"
    show "?P env has_flush sp iterations tr index y"
    proof (cases "cycle sp index")
      case None
      with body have "y = (tr, None)" by simp
      then show ?thesis by simp
    next
      case (Some frame)
      obtain tr1 r1 where sf: "show_frame env has_flush sp tr frame = (tr1, r1)"
        by (cases "show_frame env has_flush sp tr frame")
      from show_frame_shape [OF sf] obtain pre1 where
        p1: "tr1 = tr @ pre1" "pre1 \<noteq> []" "snd (last pre1) = r1"
            "\<forall>e \<in> set (butlast pre1). snd e = None"
            "set (written pre1) \<subseteq> {CLEAR_AND_HOME @ frame @ [LF], instruction_line}"
        by blast
      from cycle_in_frames [OF Some] p1(5) have w1: "set (written pre1) \<subseteq> ?W sp" by auto
      show ?thesis
      proof (cases "r1 = None \<and> \<not> (case iterations of None \<Rightarrow> False | Some n \<Rightarrow> n \<le> int index + 1)")
        case False
        with body Some sf have "y = (tr1, r1)" by (cases r1) (auto split: if_splits)
        with p1 w1 show ?thesis by auto
      next
        case True
        with body Some sf have "loop env has_flush sp iterations tr1 (index + 1) = Some y"
          by auto
        from IH [OF this] obtain pre2 where
          p2: "fst y = tr1 @ pre2" "pre2 = [] \<longrightarrow> snd y = None" "pre2 \<noteq> [] \<longrightarrow> snd (last pre2) = snd y"
              "\<forall>e \<in> set (butlast pre2). snd e = None" "set (written pre2) \<subseteq> ?W sp"
          by blast
        have all1: "\<forall>e \<in> set pre1. snd e = None"
        proof
          fix e assume "e \<in> set pre1"
          then have "e \<in> set (butlast pre1) \<or> e = last pre1"
            using p1(2) by (metis append_butlast_last_id in_set_conv_decomp_first rotate1.simps(2) set_ConsD set_rotate1)
          with p1(3,4) True show "snd e = None" by auto
        qed
        have a: "fst y = tr @ (pre1 @ pre2)" using p1(1) p2(1) by simp
        have b: "pre1 @ pre2 \<noteq> []" using p1(2) by simp
        have c: "snd (last (pre1 @ pre2)) = snd y"
          using p1(2,3) p2(2,3) True by (cases "pre2 = []") simp_all
        have d: "\<forall>e \<in> set (butlast (pre1 @ pre2)). snd e = None"
          using all1 p1(4) p2(4) by (cases "pre2 = []") (auto simp: butlast_append)
        have e: "set (written (pre1 @ pre2)) \<subseteq> ?W sp"
          using w1 p2(5) by (simp add: written_append)
        from a b c d e show ?thesis by blast
      qed
    qed
  qed
  then show ?thesis by simp
qed

lemma show_frame_interrupted:
  assumes Q: "\<forall>tr c. length tr < j \<longrightarrow> env tr c = None"
    and K: "\<forall>tr c. length tr = j \<longrightarrow> env tr c = Some KeyboardInterrupt"
    and le: "length tr \<le> j"
  shows "(j < length tr + (if has_flush then 4 else 3) \<longrightarrow>
            (\<exists>pre c. show_frame env has_flush sp tr frame
                        = (tr @ pre @ [(c, Some KeyboardInterrupt)], Some KeyboardInterrupt)
                     \<and> length tr + length pre = j \<and> (\<forall>e \<in> set pre. snd e = None)))
       \<and> (length tr + (if has_flush then 4 else 3) \<le> j \<longrightarrow>
            (\<exists>pre. show_frame env has_flush sp tr frame = (tr @ pre, None)
                   \<and> length pre = (if has_flush then 4 else 3) \<and> (\<forall>e \<in> set pre. snd e = None)))"
proof -
  from le obtain d where j: "j = length tr + d" using le_Suc_ex by blast
  have e0: "env tr c = (if d = 0 then Some KeyboardInterrupt else None)" for c
    using Q K j by auto
  have e1: "env (tr @ [a]) c = (if d = 1 then Some KeyboardInterrupt else None)" if "1 \<le> d" for a c
    using Q K j that by auto
  have e2: "env (tr @ [a, b]) c = (if d = 2 then Some KeyboardInterrupt else None)" if "2 \<le> d" for a b c
    using Q K j that by auto
  have e3: "env (tr @ [a, b, b']) c = (if d = 3 then Some KeyboardInterrupt else None)" if "3 \<le> d" for a b b' c
    using Q K j that by auto
  consider "d = 0" | "d = 1" | "d = 2" | "d = 3" | "4 \<le> d" by linarith
  then show ?thesis
  proof cases
    case 1
    then show ?thesis
      unfolding j by (simp add: show_frame_def do_call_def Let_def e0)
  next
    case 2
    then show ?thesis
      unfolding j
      by (auto simp: show_frame_def do_call_def Let_def e0 e1
          intro!: exI [of _ "[(Write (CLEAR_AND_HOME @ frame @ [LF]), None)]"])
  next
    case 3
    then show ?thesis
      unfolding j
      by (auto simp: show_frame_def do_call_def Let_def e0 e1 e2
          intro!: exI [of _ "[(Write (CLEAR_AND_HOME @ frame @ [LF]), None), (Write instruction_line, None)]"])
  next
    case 4
    then show ?thesis
      unfolding j
      by (auto simp: show_frame_def do_call_def Let_def e0 e1 e2 e3
          intro!: exI [of _ "[(Write (CLEAR_AND_HOME @ frame @ [LF]), None), (Write instruction_line, None), (Flush, None)]"]
                  exI [of _ "[(Write (CLEAR_AND_HOME @ frame @ [LF]), None), (Write instruction_line, None), (Sleep (delay sp), None)]"])
  next
    case 5
    then show ?thesis
      unfolding j
      by (auto simp: show_frame_def do_call_def Let_def e0 e1 e2 e3)
  qed
qed


lemma loop_interrupted:
  assumes fr: "frames sp \<noteq> []"
    and Q: "\<forall>tr c. length tr < j \<longrightarrow> env tr c = None"
    and K: "\<forall>tr c. length tr = j \<longrightarrow> env tr c = Some KeyboardInterrupt"
    and reach: "case iterations of None \<Rightarrow> True
                | Some n \<Rightarrow> int j < (if has_flush then 4 else 3) * max 1 n"
    and len: "length tr = (if has_flush then 4 else 3) * index"
    and le: "length tr \<le> j"
  shows "\<exists>pre c. animate_loop env has_flush sp iterations tr index
                   = Some (tr @ pre @ [(c, Some KeyboardInterrupt)], Some KeyboardInterrupt)
               \<and> length tr + length pre = j \<and> (\<forall>e \<in> set pre. snd e = None)"
  using len le
proof (induction "j - length tr" arbitrary: tr index rule: less_induct)
  case less
  let ?m = "if has_flush then 4 else 3 :: nat"
  let ?frame = "frames sp ! (index mod length (frames sp))"
  note sf = show_frame_interrupted [OF Q K less.prems(2), of has_flush sp ?frame]
  show ?case
  proof (cases "j < length tr + ?m")
    case True
    with sf obtain pre c where
      s: "show_frame env has_flush sp tr ?frame
            = (tr @ pre @ [(c, Some KeyboardInterrupt)], Some KeyboardInterrupt)"
      and p: "length tr + length pre = j" "\<forall>e \<in> set pre. snd e = None"
      by blast
    have "animate_loop env has_flush sp iterations tr index
            = Some (tr @ pre @ [(c, Some KeyboardInterrupt)], Some KeyboardInterrupt)"
      by (subst animate_loop.simps) (simp add: cycle_Some [OF fr] s)
    with p show ?thesis by blast
  next
    case False
    then have ge: "length tr + ?m \<le> j" by simp
    with sf obtain pre where
      s: "show_frame env has_flush sp tr ?frame = (tr @ pre, None)"
      and p: "length pre = ?m" "\<forall>e \<in> set pre. snd e = None"
      by blast
    have go: "\<not> (case iterations of None \<Rightarrow> False | Some n \<Rightarrow> n \<le> int index + 1)"
    proof (cases iterations)
      case None
      then show ?thesis by simp
    next
      case (Some n)
      with reach have r: "int j < (if has_flush then 4 else 3) * max 1 n" by simp
      from ge less.prems(1) have "?m * index + ?m \<le> j" by simp
      have "int index + 1 < n"
      proof (cases has_flush)
        case True
        with r \<open>?m * index + ?m \<le> j\<close> have "int j < 4 * max 1 n" "4 * index + 4 \<le> j"
          by simp_all
        then show ?thesis by linarith
      next
        case False
        with r \<open>?m * index + ?m \<le> j\<close> have "int j < 3 * max 1 n" "3 * index + 3 \<le> j"
          by simp_all
        then show ?thesis by linarith
      qed
      with Some show ?thesis by simp
    qed
    have l': "length (tr @ pre) = ?m * (index + 1)" using less.prems(1) p(1) by simp
    have le': "length (tr @ pre) \<le> j" using ge p(1) by simp
    have dec: "j - length (tr @ pre) < j - length tr" using ge p(1) by (cases has_flush) simp_all
    from less.hyps [OF dec l' le'] obtain pre' c where
      rec: "animate_loop env has_flush sp iterations (tr @ pre) (index + 1)
              = Some ((tr @ pre) @ pre' @ [(c, Some KeyboardInterrupt)], Some KeyboardInterrupt)"
      and p': "length (tr @ pre) + length pre' = j" "\<forall>e \<in> set pre'. snd e = None"
      by blast
    have "animate_loop env has_flush sp iterations tr index
            = Some (tr @ (pre @ pre') @ [(c, Some KeyboardInterrupt)], Some KeyboardInterrupt)"
      using go rec by (subst animate_loop.simps) (simp add: cycle_Some [OF fr] s)
    moreover have "length tr + length (pre @ pre') = j" using p' by simp
    moreover have "\<forall>e \<in> set (pre @ pre'). snd e = None" using p(2) p'(2) by auto
    ultimately show ?thesis by blast
  qed
qed

section \<open>animate: the claims\<close>

lemma animate_of_loop_None:
  "animate_loop env has_flush sp iterations [] 0 = Some (tr, None)
   \<Longrightarrow> animate env has_flush sp iterations = Some (tr, None)"
  by (simp add: animate_def)

lemma py_count_skip:
  assumes "pat \<noteq> []" "hd pat \<notin> set xs"
  shows "py_count pat (xs @ rest) = py_count pat rest"
  using assms(2)
proof (induction xs)
  case Nil
  show ?case by simp
next
  case (Cons x xs)
  then have "\<not> prefix pat (x # xs @ rest)"
    using assms(1) by (cases pat) auto
  with Cons assms(1) show ?case by simp
qed

lemma py_count_hit:
  assumes "pat \<noteq> []"
  shows "py_count pat (pat @ rest) = Suc (py_count pat rest)"
proof -
  from assms obtain p ps where pat: "pat = p # ps" by (cases pat) auto
  show ?thesis by (simp add: pat)
qed

lemma py_count_frames:
  assumes "\<forall>f \<in> set fs. CHR 0x1B \<notin> set f"
  shows "py_count CLEAR_AND_HOME
           (concat (concat (map (\<lambda>f. [CLEAR_AND_HOME @ f @ [LF], instruction_line]) fs)))
         = length fs"
  using assms
proof (induction fs)
  case Nil
  show ?case by (simp add: CLEAR_AND_HOME_def CLEAR_SCREEN_def MOVE_HOME_def ESC_def)
next
  case (Cons f fs)
  have ne: "CLEAR_AND_HOME \<noteq> []" and hd: "hd CLEAR_AND_HOME = CHR 0x1B"
    by (simp_all add: CLEAR_AND_HOME_def CLEAR_SCREEN_def MOVE_HOME_def ESC_def)
  have "CHR 0x1B \<notin> set (f @ [LF] @ instruction_line)"
    using Cons.prems by (simp add: instruction_line_def LF_def)
  then have skip: "py_count CLEAR_AND_HOME ((f @ [LF] @ instruction_line) @ rest) = py_count CLEAR_AND_HOME rest" for rest
    using ne hd by (intro py_count_skip) simp_all
  have "py_count CLEAR_AND_HOME (CLEAR_AND_HOME @ ((f @ [LF] @ instruction_line) @ rest))
        = Suc (py_count CLEAR_AND_HOME rest)" for rest
    by (simp only: py_count_hit [OF ne] skip)
  then show ?case using Cons by simp
qed

text \<open>
  Claim C6. For a spinner with \<open>k \<ge> 1\<close> frames, \<open>animate\<close> with \<open>iterations = k\<close>, a writer
  that records and a sleep function that returns (no call raises) returns normally. The
  texts written are, for each frame in order, the clear-screen-and-home sequence followed
  by the frame and a newline, and then the line \<open>Press Ctrl+C to stop.\<close>; so the sequence
  is written exactly \<open>k\<close> times and the instruction line at least once. When no
  frame holds an escape character itself, \<open>k\<close> is also the number of occurrences of the
  sequence in the joined output.
\<close>

theorem animate_once_per_frame:
  assumes "frames sp \<noteq> []"
  shows "\<exists>tr. animate quiet_env has_flush sp (Some (int (length (frames sp)))) = Some (tr, None)
           \<and> written tr = concat (map (\<lambda>f. [CLEAR_AND_HOME @ f @ [LF], instruction_line]) (frames sp))
           \<and> length (filter (prefix CLEAR_AND_HOME) (written tr)) = length (frames sp)
           \<and> instruction_line \<in> set (written tr)
           \<and> sleep_calls tr = length (frames sp)
           \<and> ((\<forall>f \<in> set (frames sp). CHR 0x1B \<notin> set f)
                \<longrightarrow> py_count CLEAR_AND_HOME (concat (written tr)) = length (frames sp))"
proof -
  let ?k = "length (frames sp)"
  let ?w = "\<lambda>f. [CLEAR_AND_HOME @ f @ [LF], instruction_line]"
  have k: "0 < ?k" using assms by simp
  then have m: "max (Suc 0) (nat (int ?k)) = ?k" by linarith
  from loop_quiet [OF assms, of has_flush "int ?k" "[]" 0] obtain tr where
    l: "animate_loop quiet_env has_flush sp (Some (int ?k)) [] 0 = Some (tr, None)"
    and w: "written tr = concat (map (\<lambda>i. ?w (frames sp ! (i mod ?k))) [0..<?k])"
    and s: "sleep_calls tr = ?k"
    unfolding m by auto
  have "map (\<lambda>i. ?w (frames sp ! (i mod ?k))) [0..<?k] = map (\<lambda>i. ?w (frames sp ! i)) [0..<?k]"
    by (rule map_cong) simp_all
  also have "\<dots> = map ?w (map (\<lambda>i. frames sp ! i) [0..<?k])" by simp
  also have "\<dots> = map ?w (frames sp)" by (simp only: map_nth)
  finally have w': "written tr = concat (map ?w (frames sp))" using w by simp
  have np: "\<not> prefix CLEAR_AND_HOME instruction_line"
    by (simp add: CLEAR_AND_HOME_def CLEAR_SCREEN_def MOVE_HOME_def ESC_def instruction_line_def)
  have c: "length (filter (prefix CLEAR_AND_HOME) (concat (map ?w fs))) = length fs" for fs
    by (induction fs) (simp_all add: np)
  have i: "instruction_line \<in> set (concat (map ?w (frames sp)))"
    using assms by (cases "frames sp") simp_all
  from animate_of_loop_None [OF l] w' c [of "frames sp"] i s py_count_frames [of "frames sp"]
  show ?thesis by (intro exI [of _ tr]) simp
qed

theorem animate_once_per_frame_witness:
  "\<exists>tr. animate quiet_env True \<lparr>frames = [''x'', ''y''], delay = 3 / 25\<rparr> (Some 2) = Some (tr, None)
     \<and> written tr = [CLEAR_AND_HOME @ ''x'' @ [LF], instruction_line,
                      CLEAR_AND_HOME @ ''y'' @ [LF], instruction_line]
     \<and> sleep_calls tr = 2
     \<and> py_count CLEAR_AND_HOME (concat (written tr)) = 2"
proof -
  let ?sp = "\<lparr>frames = [''x'', ''y''], delay = 3 / 25\<rparr>"
  have h: "frames ?sp \<noteq> []" by simp
  have e: "\<forall>f \<in> set (frames ?sp). CHR 0x1B \<notin> set f" by simp
  from animate_once_per_frame [OF h, of True] e show ?thesis by auto
qed

text \<open>
  Claim C7, as amended. With an iteration cap \<open>n\<close>, \<open>animate\<close> returns, whatever the
  injected callables do, and calls the sleep function at most \<open>max(1, n)\<close> times: at most
  \<open>n\<close> times for \<open>n \<ge> 1\<close>, and at most once for \<open>n \<le> 0\<close>.
\<close>

theorem sleep_calls_bounded:
  "\<exists>tr r. animate env has_flush sp (Some n) = Some (tr, r) \<and> int (sleep_calls tr) \<le> max 1 n"
proof -
  from loop_bounded [of env has_flush sp n "[]" 0] obtain tr r where
    l: "animate_loop env has_flush sp (Some n) [] 0 = Some (tr, r)"
    and b: "sleep_calls tr \<le> max (Suc 0) (nat n)" by auto
  from b have b': "int (sleep_calls tr) \<le> max 1 n" by linarith
  show ?thesis
  proof (cases "r = Some KeyboardInterrupt")
    case True
    with l have "animate env has_flush sp (Some n)
        = Some (tr @ [(Write goodbye_line, env tr (Write goodbye_line))], env tr (Write goodbye_line))"
      by (simp add: animate_def do_call_def Let_def)
    with b' show ?thesis by (simp add: sleep_calls_append)
  next
    case False
    with l have "animate env has_flush sp (Some n) = Some (tr, r)"
      by (cases r) (auto simp: animate_def split: exc.splits)
    with b' show ?thesis by simp
  qed
qed

theorem sleep_calls_bounded_witness:
  "\<exists>tr r. animate quiet_env True \<lparr>frames = [''x''], delay = 3 / 25\<rparr> (Some 2) = Some (tr, r)
      \<and> int (sleep_calls tr) \<le> 2"
  using sleep_calls_bounded [of quiet_env True "\<lparr>frames = [''x''], delay = 3 / 25\<rparr>" 2]
  by simp

text \<open>
  Claim C7 as stated fails for the cap 0: the cap is tested after the frame has been
  written and the sleep function called, so one call happens.
\<close>

theorem sleep_calls_exceed_zero_cap:
  "animate quiet_env False \<lparr>frames = [''x''], delay = 3 / 25\<rparr> (Some 0)
     = Some ([(Write (CLEAR_AND_HOME @ ''x'' @ [LF]), None), (Write instruction_line, None),
              (Sleep (3 / 25), None)], None)
   \<and> \<not> int (sleep_calls [(Write (CLEAR_AND_HOME @ ''x'' @ [LF]), None),
                          (Write instruction_line, None), (Sleep (3 / 25), None)]) \<le> 0"
  by (simp add: animate_def animate_loop.simps cycle_def show_frame_quiet)

text \<open>
  Claim C10. For a spinner (its frames are non-empty) and a cap \<open>n \<le> 0\<close>, \<open>animate\<close> with
  callables that return emits exactly one frame: it writes the clear-screen-and-home
  sequence with the first frame, writes the instruction line, flushes if the writer can,
  calls the sleep function once, and returns.
\<close>

theorem animate_nonpositive_cap:
  assumes "frames sp \<noteq> []" and "n \<le> 0"
  shows "animate quiet_env has_flush sp (Some n)
           = Some ([(Write (CLEAR_AND_HOME @ frames sp ! 0 @ [LF]), None),
                    (Write instruction_line, None)]
                   @ (if has_flush then [(Flush, None)] else [])
                   @ [(Sleep (delay sp), None)], None)
         \<and> (\<forall>tr. animate quiet_env has_flush sp (Some n) = Some (tr, None) \<longrightarrow>
               written tr = [CLEAR_AND_HOME @ frames sp ! 0 @ [LF], instruction_line]
               \<and> sleep_calls tr = 1)"
proof -
  from assms(2) have stop: "n \<le> int 0 + 1" by simp
  have "animate_loop quiet_env has_flush sp (Some n) [] 0
           = Some ([(Write (CLEAR_AND_HOME @ frames sp ! 0 @ [LF]), None),
                    (Write instruction_line, None)]
                   @ (if has_flush then [(Flush, None)] else [])
                   @ [(Sleep (delay sp), None)], None)"
    using stop by (subst animate_loop.simps) (simp add: cycle_Some [OF assms(1)] show_frame_quiet)
  then have a: "animate quiet_env has_flush sp (Some n)
           = Some ([(Write (CLEAR_AND_HOME @ frames sp ! 0 @ [LF]), None),
                    (Write instruction_line, None)]
                   @ (if has_flush then [(Flush, None)] else [])
                   @ [(Sleep (delay sp), None)], None)"
    by (rule animate_of_loop_None)
  then show ?thesis by (auto simp: written_append sleep_calls_append)
qed

theorem animate_nonpositive_cap_witness:
  "animate quiet_env False \<lparr>frames = [''x'', ''y''], delay = 3 / 25\<rparr> (Some 0)
     = Some ([(Write (CLEAR_AND_HOME @ ''x'' @ [LF]), None), (Write instruction_line, None),
              (Sleep (3 / 25), None)], None)"
proof -
  let ?sp = "\<lparr>frames = [''x'', ''y''], delay = 3 / 25\<rparr>"
  have h: "frames ?sp \<noteq> []" "(0::int) \<le> 0" by simp_all
  from animate_nonpositive_cap [OF h, of False] show ?thesis by simp
qed

text \<open>
  Claim C8. Let the call number \<open>j\<close> (from 0) of a run of \<open>animate\<close> be the first that
  raises, let it raise \<open>KeyboardInterrupt\<close>, and let the loop get that far (no cap, or
  \<open>j\<close> below the number of calls that the cap allows: three per frame, four with a
  flush). Whether the call is a write, a flush or the sleep, \<open>animate\<close> catches the
  interrupt: after the \<open>j\<close> calls that returned and the call that raised there is
  exactly one more event, the write of the clear-screen-and-home sequence with the
  goodbye message, and \<open>animate\<close> returns normally. That write is made by the handler,
  outside the \<open>try\<close>, and is taken to return. Unless a frame is itself the goodbye
  message, that text is written exactly once in the whole run.
\<close>

theorem interrupt_is_caught:
  assumes "frames sp \<noteq> []"
    and "\<forall>tr c. length tr < j \<longrightarrow> env tr c = None"
    and "\<forall>tr c. length tr = j \<longrightarrow> env tr c = Some KeyboardInterrupt"
    and "\<forall>tr. length tr = Suc j \<longrightarrow>
           env tr (Write (CLEAR_AND_HOME @ ''Stopped. Thanks for spinning!'' @ [LF])) = None"
    and "case iterations of None \<Rightarrow> True
         | Some n \<Rightarrow> int j < (if has_flush then 4 else 3) * max 1 n"
  shows "\<exists>tr c. animate env has_flush sp iterations
                 = Some (tr @ [(c, Some KeyboardInterrupt),
                               (Write (CLEAR_AND_HOME @ ''Stopped. Thanks for spinning!'' @ [LF]), None)],
                         None)
              \<and> length tr = j \<and> (\<forall>e \<in> set tr. snd e = None)
              \<and> (''Stopped. Thanks for spinning!'' \<notin> set (frames sp) \<longrightarrow>
                   count_list (written (tr @ [(c, Some KeyboardInterrupt),
                       (Write (CLEAR_AND_HOME @ ''Stopped. Thanks for spinning!'' @ [LF]), None)]))
                     (CLEAR_AND_HOME @ ''Stopped. Thanks for spinning!'' @ [LF]) = 1)
              \<and> CLEAR_AND_HOME = [CHR 0x1B, CHR ''['', CHR ''2'', CHR ''J'', CHR 0x1B, CHR ''['', CHR ''H'']"
proof -
  let ?bye = "CLEAR_AND_HOME @ ''Stopped. Thanks for spinning!'' @ [LF]"
  have bye: "goodbye_line = ?bye" by (simp add: goodbye_line_def)
  have l0: "length ([] :: event list) = (if has_flush then 4 else 3) * 0" by simp
  have le0: "length ([] :: event list) \<le> j" by simp
  from loop_interrupted [OF assms(1,2,3,5) l0 le0] obtain tr c where
    loop: "animate_loop env has_flush sp iterations [] 0
             = Some (tr @ [(c, Some KeyboardInterrupt)], Some KeyboardInterrupt)"
    and tr: "length tr = j" "\<forall>e \<in> set tr. snd e = None"
    by auto
  from tr(1) have "length (tr @ [(c, Some KeyboardInterrupt)]) = Suc j" by simp
  with assms(4) have h: "env (tr @ [(c, Some KeyboardInterrupt)]) (Write ?bye) = None" by blast
  have a: "animate env has_flush sp iterations
             = Some (tr @ [(c, Some KeyboardInterrupt), (Write ?bye, None)], None)"
    using loop h by (simp add: animate_def do_call_def Let_def bye)
  from loop_shape [OF loop] have
    w: "set (written (tr @ [(c, Some KeyboardInterrupt)]))
          \<subseteq> insert instruction_line ((\<lambda>f. CLEAR_AND_HOME @ f @ [LF]) ` set (frames sp))"
    by auto
  have cnt: "count_list (written (tr @ [(c, Some KeyboardInterrupt), (Write ?bye, None)])) ?bye = 1"
    if nf: "''Stopped. Thanks for spinning!'' \<notin> set (frames sp)"
  proof -
    have "?bye \<noteq> instruction_line"
      by (simp add: instruction_line_def CLEAR_AND_HOME_def CLEAR_SCREEN_def ESC_def)
    moreover have "?bye \<notin> (\<lambda>f. CLEAR_AND_HOME @ f @ [LF]) ` set (frames sp)"
      using nf by auto
    ultimately have "?bye \<notin> set (written (tr @ [(c, Some KeyboardInterrupt)]))" using w by auto
    then have "count_list (written (tr @ [(c, Some KeyboardInterrupt)])) ?bye = 0" by simp
    moreover have "written ((tr @ [(c, Some KeyboardInterrupt)]) @ [(Write ?bye, None)])
                 = written (tr @ [(c, Some KeyboardInterrupt)]) @ [?bye]"
      by (simp only: written_append written.simps)
    then have "written (tr @ [(c, Some KeyboardInterrupt), (Write ?bye, None)])
                 = written (tr @ [(c, Some KeyboardInterrupt)]) @ [?bye]"
      by simp
    ultimately show ?thesis by simp
  qed
  have ch: "CLEAR_AND_HOME = [CHR 0x1B, CHR ''['', CHR ''2'', CHR ''J'', CHR 0x1B, CHR ''['', CHR ''H'']"
    by (simp add: CLEAR_AND_HOME_def CLEAR_SCREEN_def MOVE_HOME_def ESC_def)
  from a tr cnt ch show ?thesis by blast
qed

theorem interrupt_is_caught_witness:
  "animate (interrupt_at 3) False \<lparr>frames = [''x'', ''y''], delay = 3 / 25\<rparr> None
     = Some ([(Write (CLEAR_AND_HOME @ ''x'' @ [LF]), None), (Write instruction_line, None),
              (Sleep (3 / 25), None),
              (Write (CLEAR_AND_HOME @ ''y'' @ [LF]), Some KeyboardInterrupt),
              (Write (CLEAR_AND_HOME @ ''Stopped. Thanks for spinning!'' @ [LF]), None)], None)
   \<and> animate (interrupt_at 2) False \<lparr>frames = [''x'', ''y''], delay = 3 / 25\<rparr> (Some 5)
     = Some ([(Write (CLEAR_AND_HOME @ ''x'' @ [LF]), None), (Write instruction_line, None),
              (Sleep (3 / 25), Some KeyboardInterrupt),
              (Write (CLEAR_AND_HOME @ ''Stopped. Thanks for spinning!'' @ [LF]), None)], None)"
proof -
  let ?sp = "\<lparr>frames = [''x'', ''y''], delay = 3 / 25\<rparr>"
  let ?bye = "CLEAR_AND_HOME @ ''Stopped. Thanks for spinning!'' @ [LF]"
  have f: "frames ?sp \<noteq> []" by simp
  have q: "\<forall>tr c. length tr < j \<longrightarrow> interrupt_at j tr c = None" for j
    by (simp add: interrupt_at_def)
  have k: "\<forall>tr c. length tr = j \<longrightarrow> interrupt_at j tr c = Some KeyboardInterrupt" for j
    by (simp add: interrupt_at_def)
  have h: "\<forall>tr. length tr = Suc j \<longrightarrow> interrupt_at j tr (Write ?bye) = None" for j
    by (simp add: interrupt_at_def)
  have r1: "case None of None \<Rightarrow> True
         | Some n \<Rightarrow> int 3 < (if False then 4 else 3) * max 1 n" by simp
  have r2: "case Some 5 of None \<Rightarrow> True
         | Some n \<Rightarrow> int 2 < (if False then 4 else 3) * max 1 n" by simp
  from interrupt_is_caught [OF f q k h r1] obtain tr c where
    a: "animate (interrupt_at 3) False ?sp None
          = Some (tr @ [(c, Some KeyboardInterrupt), (Write ?bye, None)], None)"
    by blast
  from interrupt_is_caught [OF f q k h r2] obtain tr' c' where
    b: "animate (interrupt_at 2) False ?sp (Some 5)
          = Some (tr' @ [(c', Some KeyboardInterrupt), (Write ?bye, None)], None)"
    by blast
  have l1: "animate_loop (interrupt_at 3) False ?sp None [] 0
     = Some ([(Write (CLEAR_AND_HOME @ ''x'' @ [LF]), None), (Write instruction_line, None),
              (Sleep (3 / 25), None),
              (Write (CLEAR_AND_HOME @ ''y'' @ [LF]), Some KeyboardInterrupt)], Some KeyboardInterrupt)"
    by (simp add: animate_loop.simps [of _ _ _ _ _ 0] animate_loop.simps [of _ _ _ _ _ "Suc 0"]
        cycle_def show_frame_def do_call_def interrupt_at_def Let_def)
  have l2: "animate_loop (interrupt_at 2) False ?sp (Some 5) [] 0
     = Some ([(Write (CLEAR_AND_HOME @ ''x'' @ [LF]), None), (Write instruction_line, None),
              (Sleep (3 / 25), Some KeyboardInterrupt)], Some KeyboardInterrupt)"
    by (simp add: animate_loop.simps [of _ _ _ _ _ 0]
        cycle_def show_frame_def do_call_def interrupt_at_def Let_def)
  from a l1 have 1: "animate (interrupt_at 3) False ?sp None
     = Some ([(Write (CLEAR_AND_HOME @ ''x'' @ [LF]), None), (Write instruction_line, None),
              (Sleep (3 / 25), None),
              (Write (CLEAR_AND_HOME @ ''y'' @ [LF]), Some KeyboardInterrupt),
              (Write ?bye, None)], None)"
    by (simp add: animate_def do_call_def Let_def goodbye_line_def interrupt_at_def)
  from b l2 have 2: "animate (interrupt_at 2) False ?sp (Some 5)
     = Some ([(Write (CLEAR_AND_HOME @ ''x'' @ [LF]), None), (Write instruction_line, None),
              (Sleep (3 / 25), Some KeyboardInterrupt),
              (Write ?bye, None)], None)"
    by (simp add: animate_def do_call_def Let_def goodbye_line_def interrupt_at_def)
  from 1 2 show ?thesis by (intro conjI)
qed

section \<open>Frame normalisation: lines\<close>

subsection \<open>Splitting and joining at newlines\<close>

lemma split_nl_nonempty: "split_nl s \<noteq> []"
  by (induction s) (auto split: list.splits)

lemma join_nl_Cons_Cons: "join_nl ((c # l) # ls) = c # join_nl (l # ls)"
  by (cases ls) simp_all

lemma join_split_nl: "join_nl (split_nl s) = s"
proof (induction s)
  case Nil
  show ?case by simp
next
  case (Cons c s)
  show ?case
  proof (cases "c = NL")
    case True
    with Cons show ?thesis using split_nl_nonempty [of s] by (cases "split_nl s") simp_all
  next
    case False
    with Cons show ?thesis
      by (cases "split_nl s") (auto simp: split_nl_nonempty join_nl_Cons_Cons)
  qed
qed

lemma split_nl_chars: "l \<in> set (split_nl s) \<Longrightarrow> set l \<subseteq> set s - {NL}"
proof (induction s arbitrary: l)
  case Nil
  then show ?case by simp
next
  case (Cons c s)
  show ?case
  proof (cases "c = NL")
    case True
    with Cons show ?thesis by auto
  next
    case False
    with Cons.prems obtain l0 ls where sp: "split_nl s = l0 # ls" and "l = c # l0 \<or> l \<in> set ls"
      using split_nl_nonempty [of s] by (cases "split_nl s") auto
    with Cons.IH [of l0] Cons.IH [of l] False show ?thesis by auto
  qed
qed

lemma split_nl_line: "NL \<notin> set l \<Longrightarrow> split_nl (l @ NL # rest) = l # split_nl rest"
  by (induction l) auto

lemma split_nl_single: "NL \<notin> set l \<Longrightarrow> split_nl l = [l]"
  by (induction l) auto

lemma split_join_nl:
  assumes "ls \<noteq> []" "\<forall>l \<in> set ls. NL \<notin> set l"
  shows "split_nl (join_nl ls) = ls"
  using assms
proof (induction ls rule: join_nl.induct)
  case 1
  then show ?case by simp
next
  case (2 l)
  then show ?case by (simp add: split_nl_single)
next
  case (3 l m ls)
  then show ?case by (simp add: split_nl_line)
qed

subsection \<open>splitlines\<close>

lemma NL_boundary: "is_line_boundary NL"
  by (simp add: is_line_boundary_def NL_def)

lemma CR_boundary: "is_line_boundary CR"
  by (simp add: is_line_boundary_def CR_def)

lemma SPACE_not_boundary: "\<not> is_line_boundary SPACE"
  by (simp add: is_line_boundary_def SPACE_def)

lemma splitlines_chars:
  "l \<in> set (splitlines s) \<Longrightarrow> c \<in> set l \<Longrightarrow> \<not> is_line_boundary c"
proof (induction s arbitrary: l rule: splitlines.induct)
  case 1
  then show ?case by simp
next
  case (2 d ds)
  show ?case
  proof (cases "d = CR \<and> ds \<noteq> [] \<and> hd ds = NL")
    case True
    with 2 show ?thesis by auto
  next
    case nocrlf: False
    show ?thesis
    proof (cases "is_line_boundary d")
      case True
      with 2 nocrlf show ?thesis by auto
    next
      case False
      show ?thesis
      proof (cases "splitlines ds")
        case Nil
        with 2 nocrlf False show ?thesis by auto
      next
        case (Cons l0 ls)
        with 2(4) nocrlf False have "l = d # l0 \<or> l \<in> set ls" by auto
        then show ?thesis
        proof
          assume "l = d # l0"
          with 2(5) have "c = d \<or> c \<in> set l0" by auto
          with False 2(3) [OF nocrlf False, of l0] Cons show ?thesis by auto
        next
          assume "l \<in> set ls"
          with 2(3) [OF nocrlf False, of l] 2(5) Cons show ?thesis by auto
        qed
      qed
    qed
  qed
qed

lemma splitlines_no_NL: "l \<in> set (splitlines s) \<Longrightarrow> NL \<notin> set l"
  using splitlines_chars NL_boundary by blast

lemma splitlines_line:
  assumes "\<forall>c \<in> set l. \<not> is_line_boundary c"
  shows "splitlines (l @ NL # rest) = l # splitlines rest"
  using assms
proof (induction l)
  case Nil
  show ?case by (simp add: NL_boundary) (simp add: NL_def CR_def)
next
  case (Cons c l)
  then have "c \<noteq> CR" using CR_boundary by auto
  with Cons show ?case by simp
qed

lemma splitlines_single:
  assumes "\<forall>c \<in> set l. \<not> is_line_boundary c" "l \<noteq> []"
  shows "splitlines l = [l]"
  using assms
proof (induction l)
  case Nil
  then show ?case by simp
next
  case (Cons c l)
  then have "c \<noteq> CR" using CR_boundary by auto
  with Cons show ?case by (cases "l = []") auto
qed

lemma splitlines_join:
  assumes "\<forall>l \<in> set ms. \<forall>c \<in> set l. \<not> is_line_boundary c" "ms = [] \<or> last ms \<noteq> []"
  shows "splitlines (join_nl ms) = ms"
  using assms
proof (induction ms rule: join_nl.induct)
  case 1
  show ?case by simp
next
  case (2 l)
  then show ?case by (simp add: splitlines_single)
next
  case (3 l m ls)
  then show ?case by (simp add: splitlines_line)
qed

subsection \<open>The shape of the result\<close>

lemma py_max_Max: "xs \<noteq> [] \<Longrightarrow> py_max xs = Inr (Max (set xs))"
proof (cases xs)
  case Nil
  assume "xs \<noteq> []"
  with Nil show ?thesis by simp
next
  case (Cons a list)
  have "fold max list a = Max (set (a # list))" by (rule Max.set_eq_fold [symmetric])
  with Cons show ?thesis by (simp only: py_max.simps)
qed

lemma py_max_Nil_iff: "py_max xs = Inl e \<longleftrightarrow> xs = [] \<and> e = ValueError"
  by (cases xs) auto

lemma pad_frame_eq:
  "pad_frame W H frame =
     map (ljust W) frame @ replicate (H - length frame) (replicate W SPACE)"
  by (simp add: pad_frame_def Let_def)

lemma length_ljust: "length l \<le> W \<Longrightarrow> length (ljust W l) = W"
  by (simp add: ljust_def)

lemma no_lines_iff:
  "concat (map dedent_lines raw) = [] \<longleftrightarrow> (\<forall>b \<in> set raw. dedent_lines b = [])"
  by (induction raw) auto

lemma normalize_frames_Inr:
  assumes "\<exists>b \<in> set raw. dedent_lines b \<noteq> []"
  shows "normalize_frames raw =
     Inr (map (\<lambda>b. join_nl (pad_frame (Max (set (map length (concat (map dedent_lines raw)))))
                                        (Max (set (map length (map dedent_lines raw))))
                                        (dedent_lines b))) raw)"
proof -
  from assms have a: "map length (concat (map dedent_lines raw)) \<noteq> []"
    using no_lines_iff [of raw] by simp
  from assms have b: "map length (map dedent_lines raw) \<noteq> []" by auto
  have "normalize_frames raw =
     Inr (map (\<lambda>frame. join_nl (pad_frame (Max (set (map length (concat (map dedent_lines raw)))))
                                        (Max (set (map length (map dedent_lines raw)))) frame))
           (map dedent_lines raw))"
    unfolding normalize_frames_def Let_def
    by (simp only: py_max_Max [OF a] py_max_Max [OF b] sum.case)
  then show ?thesis by (simp add: comp_def)
qed

lemma normalize_frames_Inl:
  assumes "\<forall>b \<in> set raw. dedent_lines b = []"
  shows "normalize_frames raw = Inl ValueError"
proof -
  from assms have "concat (map dedent_lines raw) = []" by (simp add: no_lines_iff)
  then have c: "map length (concat (map dedent_lines raw)) = []" by simp
  show ?thesis
    unfolding normalize_frames_def Let_def by (simp only: c py_max.simps sum.case)
qed

lemma ljust_no_NL: "NL \<notin> set l \<Longrightarrow> NL \<notin> set (ljust W l)"
  by (auto simp: ljust_def NL_def SPACE_def)

lemma pad_frame_no_NL:
  assumes "\<forall>l \<in> set frame. NL \<notin> set l" "p \<in> set (pad_frame W H frame)"
  shows "NL \<notin> set p"
proof -
  have "NL \<noteq> SPACE" by (simp add: NL_def SPACE_def)
  with assms show ?thesis by (auto simp: pad_frame_eq ljust_no_NL)
qed

text \<open>
  Claim C1. For a non-empty list of raw blocks each of which keeps at least one line
  after dedent and stripping, \<open>_normalize_frames\<close> returns one utext per block. With
  \<open>W\<close> the maximum line length and \<open>H\<close> the maximum line count over all blocks, the lines
  of each output utext (its pieces between newlines) are the lines of the block, each
  right-padded with spaces to \<open>W\<close>, followed by lines of \<open>W\<close> spaces up to \<open>H\<close> lines: so
  every output frame has exactly \<open>H\<close> lines and every line has exactly length \<open>W\<close>.
\<close>

theorem normalize_frames_rectangular:
  fixes raw :: "utext list"
  defines "W \<equiv> Max (set (map length (concat (map dedent_lines raw))))"
    and "H \<equiv> Max (set (map length (map dedent_lines raw)))"
  assumes "raw \<noteq> []" and "\<forall>b \<in> set raw. dedent_lines b \<noteq> []"
  shows "\<exists>out. normalize_frames raw = Inr out \<and> length out = length raw \<and>
           (\<forall>i < length raw.
              split_nl (out ! i) =
                map (ljust W) (dedent_lines (raw ! i))
                @ replicate (H - length (dedent_lines (raw ! i))) (replicate W SPACE)
              \<and> length (split_nl (out ! i)) = H
              \<and> (\<forall>l \<in> set (split_nl (out ! i)). length l = W))"
proof -
  let ?out = "map (\<lambda>b. join_nl (pad_frame W H (dedent_lines b))) raw"
  from assms(3,4) have ex: "\<exists>b \<in> set raw. dedent_lines b \<noteq> []" by (cases raw) auto
  have n: "normalize_frames raw = Inr ?out"
    unfolding W_def H_def by (rule normalize_frames_Inr [OF ex])
  have row: "split_nl (?out ! i) =
                map (ljust W) (dedent_lines (raw ! i))
                @ replicate (H - length (dedent_lines (raw ! i))) (replicate W SPACE)
              \<and> length (split_nl (?out ! i)) = H
              \<and> (\<forall>l \<in> set (split_nl (?out ! i)). length l = W)" if i: "i < length raw" for i
  proof -
    let ?f = "dedent_lines (raw ! i)"
    from i have mem: "raw ! i \<in> set raw" by simp
    with assms(4) have ne: "?f \<noteq> []" by blast
    have hH: "length ?f \<le> H"
      unfolding H_def using mem by (intro Max_ge) auto
    have hW: "length l \<le> W" if "l \<in> set ?f" for l
      unfolding W_def using mem that by (intro Max_ge) auto
    have nolf: "\<forall>l \<in> set ?f. NL \<notin> set l"
      using splitlines_no_NL by (auto simp: dedent_lines_def)
    have pne: "pad_frame W H ?f \<noteq> []" using ne by (simp add: pad_frame_eq)
    have "split_nl (join_nl (pad_frame W H ?f)) = pad_frame W H ?f"
      using pne pad_frame_no_NL [OF nolf] by (intro split_join_nl) auto
    then have s: "split_nl (?out ! i) = pad_frame W H ?f" using i by simp
    have l: "length (pad_frame W H ?f) = H" using hH by (simp add: pad_frame_eq)
    have w: "\<forall>l \<in> set (pad_frame W H ?f). length l = W"
      using hW by (auto simp: pad_frame_eq length_ljust)
    have e: "pad_frame W H ?f = map (ljust W) ?f @ replicate (H - length ?f) (replicate W SPACE)"
      by (rule pad_frame_eq)
    from s e l w show ?thesis by (simp only:) 
  qed
  have len: "length ?out = length raw" by simp
  have "\<forall>i < length raw.
              split_nl (?out ! i) =
                map (ljust W) (dedent_lines (raw ! i))
                @ replicate (H - length (dedent_lines (raw ! i))) (replicate W SPACE)
              \<and> length (split_nl (?out ! i)) = H
              \<and> (\<forall>l \<in> set (split_nl (?out ! i)). length l = W)"
    using row by blast
  with n len show ?thesis by blast
qed

lemma length_code_points: "length (code_points s) = length s"
  by (simp add: code_points_def)

lemmas normalize_eval =
  normalize_frames_def dedent_lines_def dedent_def dedent_block_def find_margin_def
  remove_margin_def blank_line_def indent_of_def strip_nl_def pad_frame_def ljust_def
  is_line_boundary_def is_blank_char_def NL_def CR_def TAB_def SPACE_def code_points_def Let_def

theorem normalize_frames_rectangular_witness:
  "\<exists>out. normalize_frames [code_points ''  a'' @ NL # code_points '' bc'',
                              NL # code_points ''x'' @ [NL] ] = Inr out
      \<and> length out = 2
      \<and> split_nl (out ! 0) = [code_points '' a'', code_points ''bc'']
      \<and> split_nl (out ! 1) = [code_points ''x '', code_points ''  '']"
proof -
  let ?a = "code_points ''  a'' @ NL # code_points '' bc''"
  let ?b = "NL # code_points ''x'' @ [NL]"
  have a: "dedent_lines ?a = [code_points '' a'', code_points ''bc'']"
    by (simp add: normalize_eval)
  have b: "dedent_lines ?b = [code_points ''x'']"
    by (simp add: normalize_eval)
  have h1: "[?a, ?b] \<noteq> []" by simp
  have h2: "\<forall>b \<in> set [?a, ?b]. dedent_lines b \<noteq> []" by (simp add: a b)
  have W: "Max (set (map length (concat (map dedent_lines [?a, ?b])))) = 2"
    by (simp add: a b length_code_points)
  have H: "Max (set (map length (map dedent_lines [?a, ?b]))) = 2" by (simp add: a b)
  from normalize_frames_rectangular [OF h1 h2] obtain out where
    n: "normalize_frames [?a, ?b] = Inr out" and l: "length out = length [?a, ?b]"
    and r: "\<forall>i < length [?a, ?b].
              split_nl (out ! i) =
                map (ljust 2) (dedent_lines ([?a, ?b] ! i))
                @ replicate (2 - length (dedent_lines ([?a, ?b] ! i))) (replicate 2 SPACE)"
    unfolding W H by blast
  from r have "split_nl (out ! 0) = map (ljust 2) (dedent_lines ?a)
                @ replicate (2 - length (dedent_lines ?a)) (replicate 2 SPACE)" by simp
  then have r0: "split_nl (out ! 0) = [code_points '' a'', code_points ''bc'']"
    by (simp add: a ljust_def length_code_points)
  from r have "split_nl (out ! 1) = map (ljust 2) (dedent_lines ?b)
                @ replicate (2 - length (dedent_lines ?b)) (replicate 2 SPACE)" by simp
  then have "split_nl (out ! 1) = [code_points ''x'' @ [SPACE], [SPACE, SPACE] ]"
    by (simp add: b ljust_def length_code_points numeral_2_eq_2)
  then have r1: "split_nl (out ! 1) = [code_points ''x '', code_points ''  '']"
    by (simp add: code_points_def SPACE_def)
  from n l r0 r1 show ?thesis by simp
qed

text \<open>
  Claim C2, as amended. \<open>_normalize_frames\<close> raises \<open>ValueError\<close> exactly when no block
  has a line after dedent and stripping; in particular when the input list is empty, and
  when every block has zero lines. As soon as one block has a line it returns a result.
\<close>

theorem normalize_frames_error_iff:
  "(normalize_frames raw = Inl ValueError \<longleftrightarrow> (\<forall>b \<in> set raw. dedent_lines b = []))
   \<and> ((\<exists>out. normalize_frames raw = Inr out) \<longleftrightarrow> (\<exists>b \<in> set raw. dedent_lines b \<noteq> []))
   \<and> normalize_frames [] = Inl ValueError"
proof -
  have a: "normalize_frames raw = Inl ValueError" if "\<forall>b \<in> set raw. dedent_lines b = []"
    using that by (rule normalize_frames_Inl)
  have b: "\<exists>out. normalize_frames raw = Inr out" if "\<exists>b \<in> set raw. dedent_lines b \<noteq> []"
    using normalize_frames_Inr [OF that] by blast
  have c: "normalize_frames [] = Inl ValueError"
    by (rule normalize_frames_Inl) simp
  from a b c show ?thesis by (metis Inl_Inr_False)
qed

theorem normalize_frames_error_iff_witness:
  "normalize_frames [ [SPACE, SPACE], [] ] = Inl ValueError
   \<and> (\<exists>out. normalize_frames [ [], code_points ''a''] = Inr out)"
proof -
  have a: "dedent_lines [SPACE, SPACE] = []" by (simp add: normalize_eval)
  have b: "dedent_lines [] = []" by (simp add: normalize_eval)
  have c: "dedent_lines (code_points ''a'') = [code_points ''a'']" by (simp add: normalize_eval)
  have h1: "\<forall>b \<in> set [ [SPACE, SPACE], [] ]. dedent_lines b = []" by (simp add: a b)
  have h2: "\<exists>b \<in> set [ [], code_points ''a'']. dedent_lines b \<noteq> []" by (simp add: c)
  from normalize_frames_error_iff [of "[ [SPACE, SPACE], [] ]"] h1
  have "normalize_frames [ [SPACE, SPACE], [] ] = Inl ValueError" by blast
  moreover from normalize_frames_error_iff [of "[ [], code_points ''a'']"] h2
  have "\<exists>out. normalize_frames [ [], code_points ''a''] = Inr out" by blast
  ultimately show ?thesis by blast
qed

text \<open>
  Claim C2 as stated fails: a block with zero lines beside a block with lines raises
  nothing, because the maximum is taken over the lines of all blocks together.
\<close>

theorem empty_block_beside_lines_no_error:
  "dedent_lines [] = []
   \<and> normalize_frames [ [], code_points ''a''] = Inr [code_points '' '', code_points ''a'']"
  by (simp add: normalize_eval)

section \<open>Re-normalising: the lemmas\<close>

subsection \<open>Empty lines at the two ends\<close>

lemma trim_empty_subset: "set (trim_empty ls) \<subseteq> set ls"
proof
  fix l assume "l \<in> set (trim_empty ls)"
  then have "l \<in> set (dropWhile (\<lambda>l. l = []) (rev (dropWhile (\<lambda>l. l = []) ls)))"
    by (simp add: trim_empty_def)
  then have "l \<in> set (rev (dropWhile (\<lambda>l. l = []) ls))" by (rule set_dropWhileD)
  then have "l \<in> set (dropWhile (\<lambda>l. l = []) ls)" by simp
  then show "l \<in> set ls" by (rule set_dropWhileD)
qed

lemma trim_empty_ends:
  assumes "trim_empty ls \<noteq> []"
  shows "hd (trim_empty ls) \<noteq> [] \<and> last (trim_empty ls) \<noteq> []"
proof -
  let ?a = "dropWhile (\<lambda>l. l = []) ls"
  let ?b = "dropWhile (\<lambda>l. l = []) (rev ?a)"
  from assms have b: "?b \<noteq> []" by (simp add: trim_empty_def)
  then have "hd ?b \<noteq> []" by (rule hd_dropWhile)
  then have l: "last (trim_empty ls) \<noteq> []" using b by (simp add: trim_empty_def last_rev)
  have "?a = [] \<Longrightarrow> ?b = []" by (simp only: rev.simps dropWhile.simps)
  with b have a: "?a \<noteq> []" by blast
  then have ha: "hd ?a \<noteq> []" by (rule hd_dropWhile)
  have "rev ?a = takeWhile (\<lambda>l. l = []) (rev ?a) @ ?b" by simp
  then have "last (rev ?a) = last (takeWhile (\<lambda>l. l = []) (rev ?a) @ ?b)" by (simp only:)
  also have "\<dots> = last ?b" using b by (rule last_appendR)
  finally have "last ?b = hd ?a" using a by (simp add: last_rev)
  with ha have "hd (trim_empty ls) \<noteq> []" using b by (simp add: trim_empty_def hd_rev)
  with l show ?thesis by simp
qed

lemma trim_empty_fix:
  assumes "ls = [] \<or> (hd ls \<noteq> [] \<and> last ls \<noteq> [])"
  shows "trim_empty ls = ls"
proof (cases "ls = []")
  case True
  then show ?thesis by (simp add: trim_empty_def)
next
  case False
  with assms have h: "hd ls \<noteq> []" and l: "last ls \<noteq> []" by simp_all
  from False h have a: "dropWhile (\<lambda>l. l = []) ls = ls" by (cases ls) simp_all
  from False l have "hd (rev ls) \<noteq> []" by (simp add: hd_rev)
  with False have "dropWhile (\<lambda>l. l = []) (rev ls) = rev ls" by (cases "rev ls") simp_all
  with a show ?thesis by (simp add: trim_empty_def)
qed

lemma filter_dropWhile_not: "filter (\<lambda>x. \<not> P x) (dropWhile P xs) = filter (\<lambda>x. \<not> P x) xs"
  by (induction xs) simp_all

lemma trim_empty_filter:
  "filter (\<lambda>l. l \<noteq> []) (trim_empty ls) = filter (\<lambda>l. l \<noteq> []) ls"
  by (simp add: trim_empty_def rev_filter [symmetric] filter_dropWhile_not)

lemma trim_empty_append_blank: "trim_empty (xs @ replicate k []) = trim_empty xs"
proof (cases "\<forall>x \<in> set xs. x = []")
  case True
  have 1: "dropWhile (\<lambda>l. l = []) zs = []" if "\<forall>x \<in> set zs. x = []" for zs :: "utext list"
    using that by (induction zs) simp_all
  from True have "\<forall>x \<in> set (xs @ replicate k []). x = []" by auto
  from 1 [OF this] 1 [OF True] show ?thesis by (simp only: trim_empty_def rev.simps dropWhile.simps)
next
  case False
  then obtain x where "x \<in> set xs" "x \<noteq> []" by blast
  then have "dropWhile (\<lambda>l. l = []) (xs @ replicate k [])
               = dropWhile (\<lambda>l. l = []) xs @ replicate k []"
    by (intro dropWhile_append1) simp_all
  moreover have "dropWhile (\<lambda>l. l = []) (replicate k [] @ ys) = dropWhile (\<lambda>l. l = []) ys" for ys :: "utext list"
    by (intro dropWhile_append2) simp
  ultimately show ?thesis by (simp add: trim_empty_def)
qed

subsection \<open>strip and splitlines on joined lines\<close>

lemma dropWhile_NL_join:
  assumes "\<forall>l \<in> set ls. NL \<notin> set l"
  shows "dropWhile (\<lambda>c. c = NL) (join_nl ls) = join_nl (dropWhile (\<lambda>l. l = []) ls)"
  using assms
proof (induction ls rule: join_nl.induct)
  case 1
  show ?case by simp
next
  case (2 l)
  then show ?case by (cases l) auto
next
  case (3 l m ls)
  then show ?case by (cases l) auto
qed

lemma join_nl_snoc: "xs \<noteq> [] \<Longrightarrow> join_nl (xs @ [y]) = join_nl xs @ NL # y"
  by (induction xs rule: join_nl.induct) simp_all

lemma rev_join_nl: "rev (join_nl ls) = join_nl (rev (map rev ls))"
proof (induction ls rule: join_nl.induct)
  case 1
  show ?case by simp
next
  case (2 l)
  show ?case by simp
next
  case (3 l m ls)
  have "rev (join_nl (l # m # ls)) = rev (join_nl (m # ls)) @ NL # rev l" by simp
  also have "\<dots> = join_nl (rev (map rev (m # ls))) @ NL # rev l" by (simp only: 3)
  also have "\<dots> = join_nl (rev (map rev (m # ls)) @ [rev l])"
    by (rule join_nl_snoc [symmetric]) simp
  finally show ?case by simp
qed

lemma strip_nl_join:
  assumes "\<forall>l \<in> set ls. NL \<notin> set l"
  shows "strip_nl (join_nl ls) = join_nl (trim_empty ls)"
proof -
  let ?a = "dropWhile (\<lambda>l. l = []) ls"
  have a: "\<forall>l \<in> set ?a. NL \<notin> set l" using assms by (meson set_dropWhileD)
  have ra: "\<forall>l \<in> set (rev (map rev ?a)). NL \<notin> set l" using a by auto
  have "dropWhile (\<lambda>c. c = NL) (rev (join_nl ?a))
          = join_nl (dropWhile (\<lambda>l. l = []) (rev (map rev ?a)))"
    by (simp only: rev_join_nl dropWhile_NL_join [OF ra])
  also have "dropWhile (\<lambda>l. l = []) (rev (map rev ?a))
          = map rev (dropWhile (\<lambda>l. l = []) (rev ?a))"
    by (simp add: rev_map dropWhile_map comp_def)
  finally have "rev (dropWhile (\<lambda>c. c = NL) (rev (join_nl ?a)))
          = join_nl (rev (map rev (map rev (dropWhile (\<lambda>l. l = []) (rev ?a)))))"
    by (simp only: rev_join_nl)
  then have "rev (dropWhile (\<lambda>c. c = NL) (rev (join_nl ?a))) = join_nl (trim_empty ls)"
    by (simp add: trim_empty_def comp_def)
  then show ?thesis by (simp add: strip_nl_def dropWhile_NL_join [OF assms])
qed

lemma splitlines_strip_join:
  assumes "\<forall>l \<in> set ls. \<forall>c \<in> set l. \<not> is_line_boundary c"
  shows "splitlines (strip_nl (join_nl ls)) = trim_empty ls"
proof -
  from assms have lf: "\<forall>l \<in> set ls. NL \<notin> set l" using NL_boundary by blast
  have nb: "\<forall>l \<in> set (trim_empty ls). \<forall>c \<in> set l. \<not> is_line_boundary c"
    using assms trim_empty_subset by blast
  have "trim_empty ls = [] \<or> last (trim_empty ls) \<noteq> []"
    using trim_empty_ends by blast
  with nb show ?thesis by (simp only: strip_nl_join [OF lf] splitlines_join)
qed

subsection \<open>The margin is the longest common indent\<close>

lemma lcp_prefix_left: "prefix m i \<Longrightarrow> longest_common_prefix m i = m"
  by (induction m i rule: longest_common_prefix.induct) auto

lemma lcp_prefix_right: "prefix i m \<Longrightarrow> longest_common_prefix m i = i"
  by (induction m i rule: longest_common_prefix.induct) auto

lemma first_mismatch_take:
  "first_mismatch m i = Some k \<Longrightarrow> take k m = longest_common_prefix m i"
  by (induction m i arbitrary: k rule: first_mismatch.induct) (auto split: if_splits)

lemma first_mismatch_None: "first_mismatch m i = None \<Longrightarrow> prefix m i \<or> prefix i m"
  by (induction m i rule: first_mismatch.induct) (auto split: if_splits)

lemma margin_step_lcp: "margin_step (Some m) i = Some (longest_common_prefix m i)"
proof (cases "prefix m i")
  case True
  then show ?thesis by (simp add: lcp_prefix_left)
next
  case nm: False
  show ?thesis
  proof (cases "prefix i m")
    case True
    with nm show ?thesis by (simp add: lcp_prefix_right)
  next
    case False
    with nm first_mismatch_None [of m i] obtain k where k: "first_mismatch m i = Some k"
      by (cases "first_mismatch m i") auto
    with nm False show ?thesis by (simp add: first_mismatch_take)
  qed
qed

lemma fold_margin_Some:
  "\<exists>p. fold (\<lambda>indent mo. margin_step mo indent) I (Some m) = Some p
       \<and> prefix p m \<and> (\<forall>i \<in> set I. prefix p i)
       \<and> (\<forall>q. prefix q m \<longrightarrow> (\<forall>i \<in> set I. prefix q i) \<longrightarrow> prefix q p)"
proof (induction I arbitrary: m)
  case Nil
  show ?case by simp
next
  case (Cons i I)
  let ?m = "longest_common_prefix m i"
  from Cons [of ?m] obtain p where
    f: "fold (\<lambda>indent mo. margin_step mo indent) I (Some ?m) = Some p"
    and p: "prefix p ?m" "\<forall>j \<in> set I. prefix p j"
    and g: "\<forall>q. prefix q ?m \<longrightarrow> (\<forall>j \<in> set I. prefix q j) \<longrightarrow> prefix q p"
    by blast
  have 1: "fold (\<lambda>indent mo. margin_step mo indent) (i # I) (Some m) = Some p"
    by (simp only: fold_Cons comp_def margin_step_lcp f)
  have 2: "prefix p m"
    using p(1) longest_common_prefix_prefix1 [of m i] by (rule prefix_order.trans)
  have 3: "prefix p i"
    using p(1) longest_common_prefix_prefix2 [of m i] by (rule prefix_order.trans)
  have 4: "prefix q p" if "prefix q m" "\<forall>j \<in> set (i # I). prefix q j" for q
  proof -
    from that have "prefix q ?m" by (intro longest_common_prefix_max_prefix) simp_all
    with g that(2) show ?thesis by simp
  qed
  from 1 2 3 4 p(2) show ?case by auto
qed

lemma find_margin_None:
  "filter (\<lambda>l. l \<noteq> []) ls = [] \<Longrightarrow> find_margin ls = None"
  by (simp add: find_margin_def)

lemma find_margin_Some:
  assumes "filter (\<lambda>l. l \<noteq> []) ls \<noteq> []"
  shows "\<exists>p. find_margin ls = Some p
       \<and> (\<forall>l \<in> set ls. l \<noteq> [] \<longrightarrow> prefix p (indent_of l))
       \<and> (\<forall>q. (\<forall>l \<in> set ls. l \<noteq> [] \<longrightarrow> prefix q (indent_of l)) \<longrightarrow> prefix q p)"
proof -
  let ?I = "map indent_of (filter (\<lambda>l. l \<noteq> []) ls)"
  from assms obtain i I where I: "?I = i # I" by (cases ?I) auto
  have s: "set ?I = {indent_of l | l. l \<in> set ls \<and> l \<noteq> []}" by auto
  from fold_margin_Some [of I i] obtain p where
    f: "fold (\<lambda>indent mo. margin_step mo indent) I (Some i) = Some p"
    and p: "prefix p i" "\<forall>j \<in> set I. prefix p j"
    and g: "\<forall>q. prefix q i \<longrightarrow> (\<forall>j \<in> set I. prefix q j) \<longrightarrow> prefix q p"
    by blast
  have 1: "find_margin ls = Some p"
    unfolding find_margin_def I using f by simp
  from p have "\<forall>j \<in> set ?I. prefix p j" unfolding I by simp
  then have 2: "\<forall>l \<in> set ls. l \<noteq> [] \<longrightarrow> prefix p (indent_of l)" unfolding s by blast
  have 3: "prefix q p" if "\<forall>l \<in> set ls. l \<noteq> [] \<longrightarrow> prefix q (indent_of l)" for q
  proof -
    from that have "\<forall>j \<in> set ?I. prefix q j" unfolding s by blast
    then have "prefix q i" "\<forall>j \<in> set I. prefix q j" unfolding I by simp_all
    with g show ?thesis by blast
  qed
  from 1 2 3 show ?thesis by blast
qed

lemma find_margin_cong:
  "map indent_of (filter (\<lambda>l. l \<noteq> []) xs) = map indent_of (filter (\<lambda>l. l \<noteq> []) ys)
   \<Longrightarrow> find_margin xs = find_margin ys"
  by (simp add: find_margin_def)

subsection \<open>The lines that dedent leaves\<close>

lemma has_ink_nonempty: "has_ink l \<Longrightarrow> l \<noteq> []"
  by (auto simp: has_ink_def)

lemma blank_line_cases: "blank_line l = [] \<or> (blank_line l = l \<and> has_ink l)"
  by (auto simp: blank_line_def has_ink_def)

lemma blank_line_ink: "has_ink l \<Longrightarrow> blank_line l = l"
  by (simp add: blank_line_def has_ink_def)

lemma blank_line_blank: "list_all is_blank_char l \<Longrightarrow> blank_line l = []"
  by (simp add: blank_line_def)

lemma indent_of_prefix: "prefix (indent_of l) l"
  unfolding indent_of_def by (metis prefixI takeWhile_dropWhile_id)

lemma ink_split:
  assumes "has_ink l"
  shows "\<exists>c rest. l = indent_of l @ c # rest \<and> \<not> is_blank_char c"
proof -
  have l: "l = takeWhile is_blank_char l @ dropWhile is_blank_char l" by simp
  from assms have "dropWhile is_blank_char l \<noteq> []"
    by (simp add: has_ink_def list_all_iff dropWhile_eq_Nil_conv)
  then obtain c rest where d: "dropWhile is_blank_char l = c # rest"
    by (cases "dropWhile is_blank_char l") auto
  then have "\<not> is_blank_char c" by (metis hd_dropWhile list.sel(1) list.discI)
  with l d show ?thesis unfolding indent_of_def by metis
qed

lemma indent_of_append_ink:
  assumes "list_all is_blank_char a" "\<not> is_blank_char c"
  shows "indent_of (a @ c # rest) = a"
  using assms by (simp add: indent_of_def list_all_iff takeWhile_append2)

lemma drop_indent:
  assumes "has_ink l" "prefix p (indent_of l)"
  shows "has_ink (drop (length p) l) \<and> indent_of (drop (length p) l) = drop (length p) (indent_of l)
         \<and> remove_margin p l = drop (length p) l"
proof -
  from ink_split [OF assms(1)] obtain c rest where
    l: "l = indent_of l @ c # rest" and c: "\<not> is_blank_char c" by blast
  from assms(2) obtain a where a: "indent_of l = p @ a" by (auto simp: prefix_def)
  have blank: "list_all is_blank_char (indent_of l)"
    unfolding indent_of_def list_all_iff by (meson set_takeWhileD)
  with a have ba: "list_all is_blank_char a" by simp
  from l a have l': "l = p @ a @ c # rest" by simp
  then have d: "drop (length p) l = a @ c # rest" by (metis append_eq_conv_conj)
  have 1: "has_ink (drop (length p) l)" unfolding d using c by (simp add: has_ink_def)
  have 2: "indent_of (drop (length p) l) = drop (length p) (indent_of l)"
    unfolding d using indent_of_append_ink [OF ba c] a by simp
  have "prefix p l" using l' by (metis prefixI)
  then have 3: "remove_margin p l = drop (length p) l" by (simp add: remove_margin_def)
  from 1 2 3 show ?thesis by blast
qed

lemma remove_margin_Nil: "remove_margin p [] = []"
  by (simp add: remove_margin_def)

lemma remove_margin_chars: "set (remove_margin p l) \<subseteq> set l"
  by (auto simp: remove_margin_def dest: in_set_dropD)

lemma blank_line_chars: "set (blank_line l) \<subseteq> set l"
  by (auto simp: blank_line_def)

lemma dedent_block_chars:
  assumes "r \<in> set (dedent_block ls)"
  shows "\<exists>l \<in> set ls. set r \<subseteq> set l"
proof -
  from assms have "(\<exists>l \<in> set ls. r = blank_line l) \<or> (\<exists>p. \<exists>l \<in> set ls. r = remove_margin p (blank_line l))"
    by (auto simp: dedent_block_def Let_def split: option.splits if_splits)
  then show ?thesis using blank_line_chars remove_margin_chars by (metis subset_trans)
qed

lemma removed_indents:
  assumes "\<forall>l \<in> set bl. l = [] \<or> (has_ink l \<and> prefix p (indent_of l))"
  shows "map indent_of (filter (\<lambda>l. l \<noteq> []) (map (remove_margin p) bl))
           = map (drop (length p)) (map indent_of (filter (\<lambda>l. l \<noteq> []) bl))
         \<and> (\<forall>r \<in> set (map (remove_margin p) bl). r = [] \<or> has_ink r)"
  using assms
proof (induction bl)
  case Nil
  show ?case by simp
next
  case (Cons l bl)
  then have IH: "map indent_of (filter (\<lambda>l. l \<noteq> []) (map (remove_margin p) bl))
           = map (drop (length p)) (map indent_of (filter (\<lambda>l. l \<noteq> []) bl))"
     "\<forall>r \<in> set (map (remove_margin p) bl). r = [] \<or> has_ink r" by simp_all
  show ?case
  proof (cases "l = []")
    case True
    with IH show ?thesis by (simp add: remove_margin_Nil)
  next
    case False
    with Cons.prems have "has_ink l" "prefix p (indent_of l)" by simp_all
    from drop_indent [OF this] have
      d: "has_ink (drop (length p) l)"
         "indent_of (drop (length p) l) = drop (length p) (indent_of l)"
         "remove_margin p l = drop (length p) l" by blast+
    from d(1) have n: "drop (length p) l \<noteq> []" by (rule has_ink_nonempty)
    from False n IH d show ?thesis by simp
  qed
qed

lemma dedent_block_props:
  "(\<forall>r \<in> set (dedent_block ls). r = [] \<or> has_ink r)
   \<and> (find_margin (dedent_block ls) = None \<or> find_margin (dedent_block ls) = Some [])"
proof -
  let ?bl = "map blank_line ls"
  have ink: "\<forall>l \<in> set ?bl. l = [] \<or> has_ink l"
  proof
    fix l assume "l \<in> set ?bl"
    then obtain l0 where "l = blank_line l0" by auto
    with blank_line_cases [of l0] show "l = [] \<or> has_ink l" by metis
  qed
  show ?thesis
  proof (cases "find_margin ?bl")
    case None
    then have "dedent_block ls = ?bl" by (simp add: dedent_block_def)
    with ink None show ?thesis by simp
  next
    case (Some p)
    show ?thesis
    proof (cases "p = []")
      case True
      with Some have "dedent_block ls = ?bl" by (simp add: dedent_block_def)
      with ink Some True show ?thesis by simp
    next
      case False
      with Some have R: "dedent_block ls = map (remove_margin p) ?bl" by (simp add: dedent_block_def)
      have ne: "filter (\<lambda>l. l \<noteq> []) ?bl \<noteq> []"
        using Some find_margin_None [of ?bl] by auto
      from find_margin_Some [OF ne] Some have
        pre: "\<forall>l \<in> set ?bl. l \<noteq> [] \<longrightarrow> prefix p (indent_of l)"
        and glb: "\<forall>q. (\<forall>l \<in> set ?bl. l \<noteq> [] \<longrightarrow> prefix q (indent_of l)) \<longrightarrow> prefix q p"
        by auto
      from ink pre have h: "\<forall>l \<in> set ?bl. l = [] \<or> (has_ink l \<and> prefix p (indent_of l))" by blast
      from removed_indents [OF h] have
        ind: "map indent_of (filter (\<lambda>l. l \<noteq> []) (map (remove_margin p) ?bl))
                = map (drop (length p)) (map indent_of (filter (\<lambda>l. l \<noteq> []) ?bl))"
        and ink': "\<forall>r \<in> set (map (remove_margin p) ?bl). r = [] \<or> has_ink r" by blast+
      from ind ne have ne': "filter (\<lambda>l. l \<noteq> []) (map (remove_margin p) ?bl) \<noteq> []"
        by (metis map_is_Nil_conv)
      from find_margin_Some [OF ne'] obtain p' where
        f: "find_margin (map (remove_margin p) ?bl) = Some p'"
        and pre': "\<forall>r \<in> set (map (remove_margin p) ?bl). r \<noteq> [] \<longrightarrow> prefix p' (indent_of r)"
        by blast
      have "prefix (p @ p') (indent_of l)" if "l \<in> set ?bl" "l \<noteq> []" for l
      proof -
        from h that have il: "has_ink l" and pl: "prefix p (indent_of l)" by blast+
        from drop_indent [OF il pl] have
          d: "has_ink (drop (length p) l)"
             "indent_of (drop (length p) l) = drop (length p) (indent_of l)"
             "remove_margin p l = drop (length p) l" by blast+
        from that(1) have "remove_margin p l \<in> set (map (remove_margin p) ?bl)"
          by (simp only: set_map) (rule imageI)
        with pre' d(1,3) has_ink_nonempty have "prefix p' (indent_of (drop (length p) l))"
          by metis
        then have "prefix p' (drop (length p) (indent_of l))" by (simp only: d(2))
        moreover from pl have "indent_of l = p @ drop (length p) (indent_of l)"
          by (metis append_eq_conv_conj prefix_def)
        ultimately show ?thesis by (metis same_prefix_prefix)
      qed
      with glb have "prefix (p @ p') p" by blast
      then have "p' = []" by (metis append_Nil2 prefix_order.antisym prefixI same_append_eq)
      with f ink' R show ?thesis by simp
    qed
  qed
qed

subsection \<open>dedent on lines without foreign line boundaries\<close>

lemma dedent_block_no_boundary:
  assumes "\<forall>l \<in> set ls. \<forall>c \<in> set l. \<not> is_line_boundary c"
  shows "\<forall>r \<in> set (dedent_block ls). \<forall>c \<in> set r. \<not> is_line_boundary c"
  using assms dedent_block_chars by blast

lemma dedent_lines_join:
  assumes "ls \<noteq> []" "\<forall>l \<in> set ls. \<forall>c \<in> set l. \<not> is_line_boundary c"
  shows "dedent_lines (join_nl ls) = trim_empty (dedent_block ls)"
proof -
  from assms(2) have "\<forall>l \<in> set ls. NL \<notin> set l" using NL_boundary by blast
  with assms(1) have "split_nl (join_nl ls) = ls" by (rule split_join_nl)
  then have "dedent (join_nl ls) = join_nl (dedent_block ls)" by (simp add: dedent_def)
  then show ?thesis
    unfolding dedent_lines_def
    by (simp only: splitlines_strip_join [OF dedent_block_no_boundary [OF assms(2)]])
qed

lemma dedent_lines_nl_only:
  assumes "\<forall>c \<in> set b. is_line_boundary c \<longrightarrow> c = NL"
  shows "dedent_lines b = trim_empty (dedent_block (split_nl b))"
proof -
  have "\<forall>l \<in> set (split_nl b). \<forall>c \<in> set l. \<not> is_line_boundary c"
    using assms split_nl_chars by blast
  from dedent_lines_join [OF split_nl_nonempty this] show ?thesis
    by (simp only: join_split_nl)
qed

lemma find_margin_trim: "find_margin (trim_empty ls) = find_margin ls"
  by (rule find_margin_cong) (simp only: trim_empty_filter)

lemma dedent_lines_settled:
  assumes "\<forall>c \<in> set b. is_line_boundary c \<longrightarrow> c = NL"
  shows "(\<forall>l \<in> set (dedent_lines b). l = [] \<or> has_ink l)
       \<and> (dedent_lines b = [] \<or> (hd (dedent_lines b) \<noteq> [] \<and> last (dedent_lines b) \<noteq> []))
       \<and> (find_margin (dedent_lines b) = None \<or> find_margin (dedent_lines b) = Some [])"
proof -
  let ?R = "dedent_block (split_nl b)"
  have L: "dedent_lines b = trim_empty ?R" by (rule dedent_lines_nl_only [OF assms])
  from dedent_block_props [of "split_nl b"] have
    1: "\<forall>r \<in> set ?R. r = [] \<or> has_ink r"
    and 2: "find_margin ?R = None \<or> find_margin ?R = Some []" by blast+
  from 1 have a: "\<forall>l \<in> set (trim_empty ?R). l = [] \<or> has_ink l"
    using trim_empty_subset by blast
  have b: "trim_empty ?R = [] \<or> (hd (trim_empty ?R) \<noteq> [] \<and> last (trim_empty ?R) \<noteq> [])"
    using trim_empty_ends by blast
  from 2 have c: "find_margin (trim_empty ?R) = None \<or> find_margin (trim_empty ?R) = Some []"
    by (simp only: find_margin_trim)
  from a b c show ?thesis unfolding L by blast
qed

subsection \<open>dedent on a padded frame\<close>

lemma ljust_nonempty: "l \<noteq> [] \<Longrightarrow> ljust W l \<noteq> []"
  by (simp add: ljust_def)

lemma blank_line_ljust:
  assumes "l = [] \<or> has_ink l"
  shows "blank_line (ljust W l) = (if l = [] then [] else ljust W l)"
proof (cases "l = []")
  case True
  have "list_all is_blank_char (replicate W SPACE)"
    by (simp add: list_all_iff is_blank_char_def)
  with True show ?thesis by (simp add: ljust_def blank_line_blank)
next
  case False
  with assms have "has_ink l" by simp
  then have "has_ink (ljust W l)" by (auto simp: has_ink_def ljust_def)
  with False show ?thesis by (simp add: blank_line_ink)
qed

lemma blank_line_spaces: "blank_line (replicate W SPACE) = []"
  by (rule blank_line_blank) (simp add: list_all_iff is_blank_char_def)

lemma indent_of_ljust: "has_ink l \<Longrightarrow> indent_of (ljust W l) = indent_of l"
proof -
  assume "has_ink l"
  from ink_split [OF this] obtain c rest where
    l: "l = indent_of l @ c # rest" and c: "\<not> is_blank_char c" by blast
  have b: "list_all is_blank_char (indent_of l)"
    unfolding indent_of_def list_all_iff by (meson set_takeWhileD)
  have "ljust W l = indent_of l @ c # (rest @ replicate (W - length l) SPACE)"
    unfolding ljust_def by (subst l) simp
  then have "indent_of (ljust W l) = indent_of (indent_of l @ c # (rest @ replicate (W - length l) SPACE))"
    by (simp only:)
  also have "\<dots> = indent_of l" by (rule indent_of_append_ink [OF b c])
  finally show ?thesis .
qed

lemma padded_indents:
  assumes "\<forall>l \<in> set L. l = [] \<or> has_ink l"
  shows "map indent_of (filter (\<lambda>l. l \<noteq> []) (map (\<lambda>l. if l = [] then [] else ljust W l) L))
         = map indent_of (filter (\<lambda>l. l \<noteq> []) L)"
  using assms
proof (induction L)
  case Nil
  show ?case by simp
next
  case (Cons l L)
  show ?case
  proof (cases "l = []")
    case True
    with Cons show ?thesis by simp
  next
    case False
    with Cons.prems have "has_ink l" by simp
    from indent_of_ljust [OF this] ljust_nonempty [OF False] False Cons show ?thesis by simp
  qed
qed

lemma dedent_lines_padded:
  assumes ink: "\<forall>l \<in> set L. l = [] \<or> has_ink l"
    and ends: "L = [] \<or> (hd L \<noteq> [] \<and> last L \<noteq> [])"
    and margin: "find_margin L = None \<or> find_margin L = Some []"
    and nb: "\<forall>l \<in> set L. \<forall>c \<in> set l. \<not> is_line_boundary c"
    and ne: "pad_frame W H L \<noteq> []"
  shows "dedent_lines (join_nl (pad_frame W H L)) = map (\<lambda>l. if l = [] then [] else ljust W l) L"
proof -
  let ?f = "\<lambda>l. if l = [] then [] else ljust W l"
  let ?k = "H - length L"
  let ?P = "pad_frame W H L"
  have P: "?P = map (ljust W) L @ replicate ?k (replicate W SPACE)" by (rule pad_frame_eq)
  have nbP: "\<forall>l \<in> set ?P. \<forall>c \<in> set l. \<not> is_line_boundary c"
    unfolding P using nb SPACE_not_boundary by (auto simp: ljust_def)
  have bl: "map blank_line ?P = map ?f L @ replicate ?k []"
    unfolding P using ink by (simp add: blank_line_ljust blank_line_spaces)
  have "map indent_of (filter (\<lambda>l. l \<noteq> []) (map ?f L @ replicate ?k []))
          = map indent_of (filter (\<lambda>l. l \<noteq> []) L)"
    using padded_indents [OF ink, of W] by simp
  then have "find_margin (map ?f L @ replicate ?k []) = find_margin L"
    by (rule find_margin_cong)
  with margin have "find_margin (map blank_line ?P) = None \<or> find_margin (map blank_line ?P) = Some []"
    by (simp only: bl)
  then have "dedent_block ?P = map blank_line ?P"
    by (auto simp: dedent_block_def Let_def)
  then have "trim_empty (dedent_block ?P) = trim_empty (map ?f L)"
    by (simp only: bl trim_empty_append_blank)
  also have "\<dots> = map ?f L"
  proof (rule trim_empty_fix)
    show "map ?f L = [] \<or> (hd (map ?f L) \<noteq> [] \<and> last (map ?f L) \<noteq> [])"
    proof (cases "L = []")
      case True
      then show ?thesis by simp
    next
      case False
      with ends have "hd L \<noteq> []" "last L \<noteq> []" by simp_all
      with False show ?thesis by (simp add: hd_map last_map ljust_nonempty)
    qed
  qed
  finally show ?thesis by (simp only: dedent_lines_join [OF ne nbP])
qed

subsection \<open>Normalising a normalised frame set\<close>

lemma ljust_ljust: "ljust W (ljust W l) = ljust W l"
  by (simp add: ljust_def)

lemma pad_frame_refilled:
  "pad_frame W H (map (\<lambda>l. if l = [] then [] else ljust W l) L) = pad_frame W H L"
proof -
  have "map (ljust W) (map (\<lambda>l. if l = [] then [] else ljust W l) L) = map (ljust W) L"
    by (induction L) (simp_all add: ljust_ljust)
  then show ?thesis by (simp add: pad_frame_eq)
qed

lemma refilled_width:
  assumes "ls \<noteq> []"
  shows "Max (set (map length (map (\<lambda>l. if l = [] then [] else ljust (Max (set (map length ls))) l) ls)))
         = Max (set (map length ls))"
proof -
  let ?W = "Max (set (map length ls))"
  let ?f = "\<lambda>l. if l = [] then [] else ljust ?W l"
  have fin: "finite (set (map length (map ?f ls)))" by simp
  have le: "length l \<le> ?W" if "l \<in> set ls" for l
    using that by (intro Max_ge) auto
  have len: "length (?f l) = (if l = [] then 0 else ?W)" if "l \<in> set ls" for l
    using le [OF that] by (simp add: length_ljust)
  have ub: "y \<le> ?W" if "y \<in> set (map length (map ?f ls))" for y
    using that len by auto
  from assms have "?W \<in> set (map length ls)" by (intro Max_in) auto
  then obtain l where l: "l \<in> set ls" "length l = ?W" by auto
  have eq: "length (?f l) = ?W" using len [OF l(1)] l(2) by (cases "l = []") auto
  from l(1) have "length (?f l) \<in> set (map length (map ?f ls))"
    by (simp only: set_map) (intro imageI)
  then have mem: "?W \<in> set (map length (map ?f ls))" by (simp only: eq)
  from fin ub mem show ?thesis by (rule Max_eqI)
qed

text \<open>
  Claim C3, as amended. \<open>_normalize_frames\<close> is idempotent on the inputs whose only line
  boundary is the newline: if no block holds another character at which \<open>splitlines\<close>
  ends a line (carriage return, vertical tab, form feed, the separators 0x1C to 0x1E,
  0x85, U+2028, U+2029) and \<open>_normalize_frames\<close> returns a frame list, then applied to
  that list it returns the same list again.
\<close>

theorem renormalize_idempotent:
  assumes "\<forall>b \<in> set raw. \<forall>c \<in> set b. is_line_boundary c \<longrightarrow> c = NL"
    and "normalize_frames raw = Inr out"
  shows "normalize_frames out = Inr out"
proof -
  let ?W = "Max (set (map length (concat (map dedent_lines raw))))"
  let ?H = "Max (set (map length (map dedent_lines raw)))"
  let ?f = "\<lambda>l. if l = [] then [] else ljust ?W l"
  have ex: "\<exists>b \<in> set raw. dedent_lines b \<noteq> []"
  proof (rule ccontr)
    assume "\<not> ?thesis"
    then have "normalize_frames raw = Inl ValueError" by (intro normalize_frames_Inl) simp
    with assms(2) show False by simp
  qed
  from normalize_frames_Inr [OF ex] assms(2)
  have out: "out = map (\<lambda>b. join_nl (pad_frame ?W ?H (dedent_lines b))) raw" by simp
  from ex obtain b0 where b0: "b0 \<in> set raw" "dedent_lines b0 \<noteq> []" by blast
  then have "length (dedent_lines b0) \<le> ?H" by (intro Max_ge) auto
  with b0(2) have H1: "0 < ?H" by (cases "dedent_lines b0") auto
  have again: "dedent_lines (join_nl (pad_frame ?W ?H (dedent_lines b))) = map ?f (dedent_lines b)"
    if b: "b \<in> set raw" for b
  proof -
    from assms(1) b have nl: "\<forall>c \<in> set b. is_line_boundary c \<longrightarrow> c = NL" by blast
    from dedent_lines_settled [OF nl] have
      ink: "\<forall>l \<in> set (dedent_lines b). l = [] \<or> has_ink l"
      and ends: "dedent_lines b = [] \<or> (hd (dedent_lines b) \<noteq> [] \<and> last (dedent_lines b) \<noteq> [])"
      and margin: "find_margin (dedent_lines b) = None \<or> find_margin (dedent_lines b) = Some []"
      by blast+
    have nb: "\<forall>l \<in> set (dedent_lines b). \<forall>c \<in> set l. \<not> is_line_boundary c"
      using splitlines_chars by (auto simp: dedent_lines_def)
    have "length (pad_frame ?W ?H (dedent_lines b)) \<ge> ?H" by (simp add: pad_frame_eq)
    with H1 have ne: "pad_frame ?W ?H (dedent_lines b) \<noteq> []" by auto
    from ink ends margin nb ne show ?thesis by (rule dedent_lines_padded)
  qed
  have lines: "map dedent_lines out = map (\<lambda>b. map ?f (dedent_lines b)) raw"
    unfolding out using again by simp
  have concat_eq: "concat (map dedent_lines out) = map ?f (concat (map dedent_lines raw))"
    unfolding lines by (simp add: map_concat comp_def)
  from ex have ne: "concat (map dedent_lines raw) \<noteq> []" using no_lines_iff [of raw] by simp
  have W': "Max (set (map length (concat (map dedent_lines out)))) = ?W"
    unfolding concat_eq by (rule refilled_width [OF ne])
  have "map length (map dedent_lines out) = map length (map dedent_lines raw)"
    unfolding lines by simp
  then have H': "Max (set (map length (map dedent_lines out))) = ?H" by (simp only:)
  have ex': "\<exists>b \<in> set out. dedent_lines b \<noteq> []"
  proof -
    from ne concat_eq have "concat (map dedent_lines out) \<noteq> []" by simp
    then show ?thesis using no_lines_iff [of out] by simp
  qed
  have "normalize_frames out = Inr (map (\<lambda>b. join_nl (pad_frame ?W ?H (dedent_lines b))) out)"
    using normalize_frames_Inr [OF ex'] by (simp only: W' H')
  also have "map (\<lambda>b. join_nl (pad_frame ?W ?H (dedent_lines b))) out
           = map (\<lambda>L. join_nl (pad_frame ?W ?H L)) (map dedent_lines out)"
    by simp
  also have "\<dots> = map (\<lambda>b. join_nl (pad_frame ?W ?H (map ?f (dedent_lines b)))) raw"
    unfolding lines by simp
  also have "\<dots> = out" unfolding out by (simp only: pad_frame_refilled)
  finally show ?thesis .
qed

theorem renormalize_idempotent_witness:
  "normalize_frames [code_points ''  a'' @ NL # code_points '' bc'', NL # code_points ''x'' @ [NL] ]
     = Inr [code_points '' a'' @ NL # code_points ''bc'', code_points ''x '' @ NL # code_points ''  '']
   \<and> normalize_frames [code_points '' a'' @ NL # code_points ''bc'', code_points ''x '' @ NL # code_points ''  '']
     = Inr [code_points '' a'' @ NL # code_points ''bc'', code_points ''x '' @ NL # code_points ''  '']"
proof -
  let ?raw = "[code_points ''  a'' @ NL # code_points '' bc'', NL # code_points ''x'' @ [NL] ]"
  let ?out = "[code_points '' a'' @ NL # code_points ''bc'', code_points ''x '' @ NL # code_points ''  '']"
  have h1: "\<forall>b \<in> set ?raw. \<forall>c \<in> set b. is_line_boundary c \<longrightarrow> c = NL"
    by (simp add: is_line_boundary_def NL_def code_points_def)
  have h2: "normalize_frames ?raw = Inr ?out" by (simp add: normalize_eval)
  from renormalize_idempotent [OF h1 h2] h2 show ?thesis by simp
qed

text \<open>
  Claim C3 as stated fails on a block with a carriage return: \<open>dedent\<close> sees one line
  \<open>"a\r\t"\<close>, \<open>splitlines\<close> makes the two lines \<open>"a"\<close> and \<open>"\t"\<close> of it, and in the second
  run \<open>dedent\<close> empties the line \<open>"\t"\<close>, which is then stripped. The same happens with
  any other line boundary than the newline in the place of the carriage return.
\<close>

theorem renormalize_changes_output:
  "normalize_frames [code_points ''a'' @ [CR, TAB] ] = Inr [code_points ''a'' @ [NL, TAB] ]
   \<and> normalize_frames [code_points ''a'' @ [NL, TAB] ] = Inr [code_points ''a'']
   \<and> [code_points ''a'' @ [NL, TAB] ] \<noteq> [code_points ''a'']"
  by (simp add: normalize_eval)

end
